theory Spec2Isabelle
  imports Complex_Main "HOL-Library.AList"
begin

section \<open>JavaScript numbers\<close>

text \<open>
  Every number of the three programs is an IEEE 754 binary64 value. A finite value is
  modelled by the rational it denotes, so the two zeros are one value \<open>Fin 0\<close>; the
  modelled functions never divide by a zero (lines 81 and 94 of \<^verbatim>\<open>script.js\<close> test
  the divisor first, the other divisors are the literals 100 and 2), and nothing else
  they do can tell the zeros apart.
\<close>

datatype js_number = Fin rat | PosInf | NegInf | NaN

definition pow2 :: "int \<Rightarrow> rat" where
  "pow2 k = 2 powi k"

text \<open>Number of binary digits of a positive integer.\<close>

function bitlen :: "int \<Rightarrow> int" where
  "bitlen a = (if 0 < a then bitlen (a div 2) + 1 else 0)"
  by pat_completeness auto
termination
  by (relation "measure nat") auto

declare bitlen.simps [simp del]

text \<open>The binary exponent of a positive rational: \<open>pow2 e \<le> x < pow2 (e + 1)\<close>.\<close>

definition ilog2 :: "rat \<Rightarrow> int" where
  "ilog2 x =
     (let (a, b) = quotient_of x;
          d = bitlen a - bitlen b
      in if pow2 d \<le> x then d else d - 1)"

definition round_half_even :: "rat \<Rightarrow> int" where
  "round_half_even x =
     (let f = \<lfloor>x\<rfloor>; d = x - of_int f
      in if d < 1 / 2 then f else if 1 / 2 < d then f + 1 else if even f then f else f + 1)"

text \<open>
  Rounding of an exact result to binary64, round to nearest, ties to even: 53 significant
  bits, the least exponent \<open>- 1022\<close> (below it the spacing stays \<open>pow2 (- 1074)\<close>, the
  subnormal numbers), and an infinity when the rounded magnitude reaches \<open>pow2 1024\<close>.
\<close>

definition fl :: "rat \<Rightarrow> js_number" where
  "fl x =
     (if x = 0 then Fin 0
      else let e = max (ilog2 \<bar>x\<bar>) (- 1022);
               q = pow2 (e - 52);
               y = of_int (round_half_even (x / q)) * q
           in if pow2 1024 \<le> \<bar>y\<bar> then (if 0 < x then PosInf else NegInf) else Fin y)"

text \<open>A decimal literal of the source denotes the double nearest to it.\<close>

definition lit :: "rat \<Rightarrow> js_number" where
  "lit r = fl r"

text \<open>The relative error of one rounding in the normal range is at most this.\<close>

definition unit_roundoff :: rat where
  "unit_roundoff = 1 / 2 ^ 53"

fun js_add :: "js_number \<Rightarrow> js_number \<Rightarrow> js_number" where
  "js_add (Fin a) (Fin b) = fl (a + b)"
| "js_add NaN _ = NaN"
| "js_add _ NaN = NaN"
| "js_add PosInf NegInf = NaN"
| "js_add NegInf PosInf = NaN"
| "js_add PosInf _ = PosInf"
| "js_add NegInf _ = NegInf"
| "js_add _ PosInf = PosInf"
| "js_add _ NegInf = NegInf"

fun js_mul :: "js_number \<Rightarrow> js_number \<Rightarrow> js_number" where
  "js_mul (Fin a) (Fin b) = fl (a * b)"
| "js_mul NaN _ = NaN"
| "js_mul _ NaN = NaN"
| "js_mul (Fin a) PosInf = (if a = 0 then NaN else if 0 < a then PosInf else NegInf)"
| "js_mul (Fin a) NegInf = (if a = 0 then NaN else if 0 < a then NegInf else PosInf)"
| "js_mul PosInf (Fin b) = (if b = 0 then NaN else if 0 < b then PosInf else NegInf)"
| "js_mul NegInf (Fin b) = (if b = 0 then NaN else if 0 < b then NegInf else PosInf)"
| "js_mul PosInf PosInf = PosInf"
| "js_mul PosInf NegInf = NegInf"
| "js_mul NegInf PosInf = NegInf"
| "js_mul NegInf NegInf = PosInf"

text \<open>Division; a zero divisor is taken as the positive zero.\<close>

fun js_div :: "js_number \<Rightarrow> js_number \<Rightarrow> js_number" where
  "js_div (Fin a) (Fin b) =
     (if b = 0 then (if a = 0 then NaN else if 0 < a then PosInf else NegInf) else fl (a / b))"
| "js_div NaN _ = NaN"
| "js_div _ NaN = NaN"
| "js_div (Fin a) PosInf = Fin 0"
| "js_div (Fin a) NegInf = Fin 0"
| "js_div PosInf (Fin b) = (if 0 \<le> b then PosInf else NegInf)"
| "js_div NegInf (Fin b) = (if 0 \<le> b then NegInf else PosInf)"
| "js_div PosInf _ = NaN"
| "js_div NegInf _ = NaN"

text \<open>\<^verbatim>\<open>Math.round\<close>: the nearest integer, a tie going up; exact on every double.\<close>

fun Math_round :: "js_number \<Rightarrow> js_number" where
  "Math_round (Fin x) = Fin (of_int \<lfloor>x + 1 / 2\<rfloor>)"
| "Math_round PosInf = PosInf"
| "Math_round NegInf = NegInf"
| "Math_round NaN = NaN"

fun js_lt :: "js_number \<Rightarrow> js_number \<Rightarrow> bool" where
  "js_lt NaN _ = False"
| "js_lt _ NaN = False"
| "js_lt (Fin a) (Fin b) = (a < b)"
| "js_lt NegInf NegInf = False"
| "js_lt NegInf _ = True"
| "js_lt _ NegInf = False"
| "js_lt PosInf _ = False"
| "js_lt _ PosInf = True"

definition js_gt :: "js_number \<Rightarrow> js_number \<Rightarrow> bool" where
  "js_gt a b = js_lt b a"

definition js_le :: "js_number \<Rightarrow> js_number \<Rightarrow> bool" where
  "js_le a b = (a \<noteq> NaN \<and> b \<noteq> NaN \<and> \<not> js_lt b a)"

text \<open>\<^verbatim>\<open>a === b\<close> on numbers: \<^verbatim>\<open>NaN\<close> equals nothing.\<close>

definition strict_eq :: "js_number \<Rightarrow> js_number \<Rightarrow> bool" where
  "strict_eq a b = (a \<noteq> NaN \<and> a = b)"

fun isNaN :: "js_number \<Rightarrow> bool" where
  "isNaN NaN = True"
| "isNaN _ = False"

text \<open>A number in a condition: zero and \<^verbatim>\<open>NaN\<close> are falsy.\<close>

fun truthy :: "js_number \<Rightarrow> bool" where
  "truthy (Fin x) = (x \<noteq> 0)"
| "truthy NaN = False"
| "truthy _ = True"

datatype js_value = JNumber js_number | JString string | JBoolean bool | JNull | JUndefined

datatype error = Error string | RangeError string


section \<open>Problem 1: three sums of 1..n\<close>

text \<open>
  \<^verbatim>\<open>sumIteratively\<close> (index.js, lines 1-7). The loop variable and the sum are doubles;
  the loop may run forever (\<^verbatim>\<open>i++\<close> stops moving at \<open>2 ^ 53\<close>), hence the option.
  \<open>acc\<close> is the source's \<^verbatim>\<open>sum\<close>.
\<close>

partial_function (option) sumIteratively_loop ::
  "js_number \<Rightarrow> js_number \<Rightarrow> js_number \<Rightarrow> js_number option" where
  "sumIteratively_loop n i acc =
     (if js_le i n then sumIteratively_loop n (js_add i (Fin 1)) (js_add acc i)
      else Some acc)"

definition sumIteratively :: "js_number \<Rightarrow> js_number option" where
  "sumIteratively n = sumIteratively_loop n (Fin 1) (Fin 0)"

text \<open>
  \<^verbatim>\<open>Array.from({ length: n }, ...)\<close> reads the length with \<^verbatim>\<open>ToLength\<close> (truncate, clamp
  to 0 and \<open>2 ^ 53 - 1\<close>) and creates the array with \<^verbatim>\<open>new Array(len)\<close>, which throws a
  \<^verbatim>\<open>RangeError\<close> when \<open>len\<close> exceeds \<open>2 ^ 32 - 1\<close>.
\<close>

definition ToLength :: "js_number \<Rightarrow> nat" where
  "ToLength n =
     (case n of
        Fin x \<Rightarrow> if x \<le> 0 then 0 else min (nat \<lfloor>x\<rfloor>) (2 ^ 53 - 1)
      | PosInf \<Rightarrow> 2 ^ 53 - 1
      | NegInf \<Rightarrow> 0
      | NaN \<Rightarrow> 0)"

text \<open>\<^verbatim>\<open>sumWithReduce\<close> (index.js, lines 9-12).\<close>

definition sumWithReduce :: "js_number \<Rightarrow> error + js_number" where
  "sumWithReduce n =
     (let len = ToLength n
      in if 2 ^ 32 \<le> len then Inl (RangeError ''Invalid array length'')
         else Inr (foldl (\<lambda>acc num. js_add acc num) (Fin 0)
                     (map (\<lambda>i. js_add (Fin (of_nat i)) (Fin 1)) [0..<len])))"

text \<open>\<^verbatim>\<open>sumWithFormula\<close> (index.js, lines 14-16).\<close>

definition sumWithFormula :: "js_number \<Rightarrow> js_number" where
  "sumWithFormula n = js_div (js_mul n (js_add n (Fin 1))) (Fin 2)"


section \<open>Problem 2: the currency converter\<close>

text \<open>
  A JavaScript \<^verbatim>\<open>Map\<close> from strings to numbers, in insertion order. \<^verbatim>\<open>set\<close> replaces the
  value of a key that is present, in place, and appends a new key.
\<close>

type_synonym rate_map = "(string \<times> js_number) list"

definition map_set :: "rate_map \<Rightarrow> string \<Rightarrow> js_number \<Rightarrow> rate_map" where
  "map_set m k v = AList.update k v m"

definition map_has :: "rate_map \<Rightarrow> string \<Rightarrow> bool" where
  "map_has m k = (map_of m k \<noteq> None)"

text \<open>\<^verbatim>\<open>MOCK_RATES\<close> (script.js, lines 2-15).\<close>

definition MOCK_RATES :: rate_map where
  "MOCK_RATES =
     [(''USD_EUR'', lit (85 / 100)),
      (''USD_GBP'', lit (73 / 100)),
      (''USD_JPY'', lit 110),
      (''EUR_USD'', lit (118 / 100)),
      (''EUR_GBP'', lit (86 / 100)),
      (''EUR_JPY'', lit (12953 / 100)),
      (''GBP_USD'', lit (137 / 100)),
      (''GBP_EUR'', lit (116 / 100)),
      (''GBP_JPY'', lit (15075 / 100)),
      (''JPY_USD'', lit (91 / 10000)),
      (''JPY_EUR'', lit (77 / 10000)),
      (''JPY_GBP'', lit (66 / 10000))]"

text \<open>
  The price snapshot: an object from token symbol to a number or \<^verbatim>\<open>null\<close> (\<open>None\<close>), its
  keys in the order of \<^verbatim>\<open>Object.keys\<close>. \<open>map_of prices t\<close> is \<^verbatim>\<open>prices[t]\<close>.
\<close>

type_synonym snapshot = "(string \<times> js_number option) list"

text \<open>The body of the first \<^verbatim>\<open>forEach\<close> (lines 79-86).\<close>

definition usd_rates_step :: "snapshot \<Rightarrow> rate_map \<Rightarrow> string \<Rightarrow> rate_map" where
  "usd_rates_step prices rates token =
     (case map_of prices token of
        Some (Some price) \<Rightarrow>
          if truthy price \<and> \<not> strict_eq price (Fin 0)
          then map_set (map_set rates (''USD_'' @ token) (js_div (Fin 1) price))
                 (token @ ''_USD'') price
          else rates
      | _ \<Rightarrow> rates)"

text \<open>The body of the inner \<^verbatim>\<open>forEach\<close> of the cross rates (lines 90-98).\<close>

definition cross_rates_step :: "snapshot \<Rightarrow> string \<Rightarrow> rate_map \<Rightarrow> string \<Rightarrow> rate_map" where
  "cross_rates_step prices fromToken rates toToken =
     (if fromToken \<noteq> toToken
      then (case (map_of prices fromToken, map_of prices toToken) of
              (Some (Some fromRate), Some (Some toRate)) \<Rightarrow>
                if truthy fromRate \<and> truthy toRate \<and> \<not> strict_eq fromRate (Fin 0)
                then map_set rates (fromToken @ ''_'' @ toToken) (js_div fromRate toRate)
                else rates
            | _ \<Rightarrow> rates)
      else rates)"

text \<open>\<^verbatim>\<open>buildExchangeRates\<close> (lines 70-107); \<open>None\<close> is an absent (\<^verbatim>\<open>null\<close>) snapshot.\<close>

definition buildExchangeRates :: "snapshot option \<Rightarrow> rate_map" where
  "buildExchangeRates prices =
     (case prices of
        None \<Rightarrow> MOCK_RATES
      | Some ps \<Rightarrow>
          if length (map fst ps) = 0 then MOCK_RATES
          else
            let tokens = filter (\<lambda>t. map_of ps t \<noteq> Some None) (map fst ps);
                rates1 = foldl (usd_rates_step ps) [] tokens;
                rates2 = foldl (\<lambda>rates fromToken.
                           foldl (cross_rates_step ps fromToken) rates tokens) rates1 tokens;
                rates3 = foldl (\<lambda>rates (key, value). map_set rates key value) rates2 MOCK_RATES
            in if 0 < length rates3 then rates3 else MOCK_RATES)"

text \<open>
  The specification's "token with a non-null, non-zero price": the snapshot gives \<open>t\<close> the
  number \<open>p\<close>, and \<open>p\<close> passes the tests of lines 81 and 94.
\<close>

definition has_price :: "snapshot \<Rightarrow> string \<Rightarrow> js_number \<Rightarrow> bool" where
  "has_price ps t p = (map_of ps t = Some (Some p) \<and> truthy p)"

text \<open>The module's mutable globals (lines 29-34).\<close>

record globals =
  exchangeRates :: rate_map
  pricesCache :: "snapshot option"
  formatters :: "string list"

text \<open>\<^verbatim>\<open>validateInput\<close> (lines 168-179).\<close>

definition validateInput :: "js_value \<Rightarrow> error + js_value" where
  "validateInput value =
     (case value of
        JNumber v \<Rightarrow>
          if isNaN v then Inl (Error ''Input must be a valid number'')
          else if js_lt v (Fin 0) then Inl (Error ''Input must be non-negative'')
          else if js_gt v (Fin 1000000) then Inl (Error ''Amount too large'')
          else Inr value
      | _ \<Rightarrow> Inl (Error ''Input must be a valid number''))"

text \<open>
  The specification's description of the rejected arguments, to compare with the code:
  not a finite number, or negative, or above 1,000,000.
\<close>

definition spec_rejects :: "js_value \<Rightarrow> bool" where
  "spec_rejects v = (case v of JNumber (Fin x) \<Rightarrow> x < 0 \<or> 1000000 < x | _ \<Rightarrow> True)"

definition convertToCents :: "js_number \<Rightarrow> js_number" where
  "convertToCents amount = Math_round (js_mul amount (Fin 100))"

definition convertFromCents :: "js_number \<Rightarrow> js_number" where
  "convertFromCents cents = js_div cents (Fin 100)"

text \<open>
  \<^verbatim>\<open>getConversionRate\<close> (lines 189-198) reads the global \<^verbatim>\<open>exchangeRates\<close>; the functions
  of the engine take the globals and return them with their result. \<^verbatim>\<open>has\<close> followed by
  \<^verbatim>\<open>get\<close> of the same key is one lookup.
\<close>

definition getConversionRate ::
  "string \<Rightarrow> string \<Rightarrow> globals \<Rightarrow> (error + js_number) \<times> globals" where
  "getConversionRate fromCurrency toCurrency s =
     (if fromCurrency = toCurrency then (Inr (Fin 1), s)
      else let rateKey = fromCurrency @ ''_'' @ toCurrency
           in case map_of (exchangeRates s) rateKey of
                None \<Rightarrow> (Inl (Error (''Exchange rate not available for '' @ rateKey)), s)
              | Some rate \<Rightarrow> (Inr rate, s))"

text \<open>\<^verbatim>\<open>performConversion\<close> (lines 200-204).\<close>

definition performConversion ::
  "js_number \<Rightarrow> string \<Rightarrow> string \<Rightarrow> globals \<Rightarrow> (error + js_number) \<times> globals" where
  "performConversion amountInCents fromCurrency toCurrency s =
     (case getConversionRate fromCurrency toCurrency s of
        (Inl e, s') \<Rightarrow> (Inl e, s')
      | (Inr rate, s') \<Rightarrow> (Inr (Math_round (js_mul amountInCents rate)), s'))"

text \<open>
  The conversion that \<^verbatim>\<open>updateOutputAmount\<close> runs on the parsed input (lines 225-230):
  validate, to cents, convert, back from cents. The specification calls it \<open>convert\<close>.
  (Lines 215-219 clear the output field instead when the input is \<^verbatim>\<open>NaN\<close> or 0.)
\<close>

definition convert ::
  "js_number \<Rightarrow> string \<Rightarrow> string \<Rightarrow> globals \<Rightarrow> (error + js_number) \<times> globals" where
  "convert inputAmount fromCurrency toCurrency s =
     (case validateInput (JNumber inputAmount) of
        Inl e \<Rightarrow> (Inl e, s)
      | Inr _ \<Rightarrow>
          (case performConversion (convertToCents inputAmount) fromCurrency toCurrency s of
             (Inl e, s') \<Rightarrow> (Inl e, s')
           | (Inr outputCents, s') \<Rightarrow> (Inr (convertFromCents outputCents), s')))"


text \<open>
  The specification's \<^verbatim>\<open>round(amount * rate, 2)\<close>, on exact values: the nearest multiple
  of 0.01, a tie going up.
\<close>

definition spec_round2 :: "rat \<Rightarrow> rat" where
  "spec_round2 x = of_int \<lfloor>x * 100 + 1 / 2\<rfloor> / 100"


section \<open>Facts about binary64 rounding\<close>

lemma pow2_pos [simp]: "0 < pow2 k"
  by (simp add: pow2_def power_int_def)

lemma pow2_add: "pow2 (a + b) = pow2 a * pow2 b"
  by (simp add: pow2_def power_int_add)

lemma pow2_diff: "pow2 (a - b) = pow2 a / pow2 b"
  by (simp add: pow2_def power_int_diff)

lemma pow2_nat: "pow2 (int n) = 2 ^ n"
  by (simp add: pow2_def)

lemma pow2_neg_nat: "pow2 (- int n) = 1 / 2 ^ n"
  by (simp add: pow2_def power_int_def inverse_eq_divide power_one_over)

lemma pow2_mono: "a \<le> b \<Longrightarrow> pow2 a \<le> pow2 b"
  unfolding pow2_def by (rule power_int_increasing) simp_all

lemma pow2_less_cancel: "pow2 a < pow2 b \<Longrightarrow> a < b"
  using pow2_mono[of b a] by (cases "a < b") auto

lemma pow2_Suc: "pow2 (k + 1) = 2 * pow2 k"
  by (simp add: pow2_def power_int_add)

lemma bitlen_bounds:
  "0 < a \<Longrightarrow> 0 < bitlen a \<and> 2 ^ nat (bitlen a - 1) \<le> a \<and> a < 2 ^ nat (bitlen a)"
proof (induction a rule: bitlen.induct)
  case (1 a)
  show ?case
  proof (cases "0 < a div 2")
    case True
    from 1 True have ih: "0 < bitlen (a div 2)" "2 ^ nat (bitlen (a div 2) - 1) \<le> a div 2"
      "a div 2 < 2 ^ nat (bitlen (a div 2))" by auto
    have eq: "bitlen a = bitlen (a div 2) + 1" using 1(2) by (subst bitlen.simps) simp
    have n1: "nat (bitlen a - 1) = Suc (nat (bitlen (a div 2) - 1))" using eq ih(1) by simp
    have n2: "nat (bitlen a) = Suc (nat (bitlen (a div 2)))" using eq ih(1) by simp
    define p q where "p = (2::int) ^ nat (bitlen (a div 2) - 1)" and "q = (2::int) ^ nat (bitlen (a div 2))"
    have "p \<le> a div 2" "a div 2 < q" using ih by (simp_all add: p_def q_def)
    then have "2 * p \<le> a" "a < 2 * q" by linarith+
    then show ?thesis unfolding n1 n2 using ih(1) eq by (simp add: p_def q_def)
  next
    case False
    with 1(2) have a1: "a = 1" by simp
    have "bitlen (1 div 2) = 0" by (subst bitlen.simps) simp
    then have "bitlen 1 = 1" by (subst bitlen.simps) simp
    with a1 show ?thesis by simp
  qed
qed

lemma bitlen_pow2:
  assumes "0 < a"
  shows "pow2 (bitlen a - 1) \<le> of_int a" and "of_int a < pow2 (bitlen a)"
proof -
  from bitlen_bounds[OF assms]
  have A: "0 < bitlen a" "2 ^ nat (bitlen a - 1) \<le> a" "a < 2 ^ nat (bitlen a)" by simp_all
  show "pow2 (bitlen a - 1) \<le> of_int a"
    using A(1,2) by (simp add: pow2_def power_int_def)
  show "of_int a < pow2 (bitlen a)"
    using A(1,3) by (simp add: pow2_def power_int_def)
qed

lemma ilog2_bounds:
  assumes "0 < x"
  shows "pow2 (ilog2 x) \<le> x" and "x < pow2 (ilog2 x + 1)"
proof -
  obtain a b where q: "quotient_of x = (a, b)" by (cases "quotient_of x")
  have b: "0 < b" using q by (rule quotient_of_denom_pos)
  have x: "x = of_int a / of_int b" using q by (rule quotient_of_div)
  have a: "0 < a" using assms b x by (simp add: zero_less_divide_iff)
  define la lb where "la = bitlen a" and "lb = bitlen b"
  note A = bitlen_pow2[OF a, folded la_def]
  note B = bitlen_pow2[OF b, folded lb_def]
  have rb: "(0::rat) < of_int b" and ra: "(0::rat) < of_int a" using a b by simp_all
  have "x * pow2 (lb - 1) \<le> x * of_int b" using B(1) assms by simp
  also have "\<dots> = of_int a" using rb by (simp add: x)
  also have "\<dots> < pow2 la" by (rule A(2))
  finally have "x * pow2 (lb - 1) < pow2 (lb - 1) * pow2 (la - lb + 1)"
    by (simp add: pow2_add[symmetric])
  then have up: "x < pow2 (la - lb + 1)" by (simp add: mult.commute)
  have "pow2 lb * pow2 (la - lb - 1) = pow2 (la - 1)" by (simp add: pow2_add[symmetric])
  also have "\<dots> \<le> of_int a" by (rule A(1))
  also have "\<dots> = x * of_int b" using rb by (simp add: x)
  also have "\<dots> < x * pow2 lb" using B(2) assms by simp
  finally have lo: "pow2 (la - lb - 1) < x" by (simp add: mult.commute)
  have d: "ilog2 x = (if pow2 (la - lb) \<le> x then la - lb else la - lb - 1)"
    by (simp add: ilog2_def q la_def lb_def)
  show "pow2 (ilog2 x) \<le> x" using lo d by auto
  show "x < pow2 (ilog2 x + 1)" using up d by (cases "pow2 (la - lb) \<le> x") auto
qed

lemma ilog2_less:
  assumes "0 < x" "x < pow2 k"
  shows "ilog2 x < k"
proof -
  have "pow2 (ilog2 x) < pow2 k" using ilog2_bounds(1)[OF assms(1)] assms(2) by simp
  then show ?thesis by (rule pow2_less_cancel)
qed

lemma ilog2_ge:
  assumes "0 < x" "pow2 k \<le> x"
  shows "k \<le> ilog2 x"
proof -
  have "pow2 k < pow2 (ilog2 x + 1)" using ilog2_bounds(2)[OF assms(1)] assms(2) by simp
  then have "k < ilog2 x + 1" by (rule pow2_less_cancel)
  then show ?thesis by simp
qed

lemma round_half_even_of_int [simp]: "round_half_even (of_int n) = n"
  by (simp add: round_half_even_def)

lemma round_half_even_error: "\<bar>of_int (round_half_even x) - x\<bar> \<le> 1 / 2"
proof -
  have "of_int \<lfloor>x\<rfloor> \<le> x" "x < of_int \<lfloor>x\<rfloor> + 1" by linarith+
  then show ?thesis by (auto simp: round_half_even_def Let_def)
qed

lemma round_half_even_le:
  assumes "x \<le> of_int n"
  shows "round_half_even x \<le> n"
proof (cases "x = of_int n")
  case True
  then show ?thesis by simp
next
  case False
  with assms have "x < of_int n" by simp
  then have "\<lfloor>x\<rfloor> < n" by (simp add: floor_less_iff)
  then show ?thesis by (auto simp: round_half_even_def Let_def)
qed

lemma round_half_even_ge:
  assumes "of_int n \<le> x"
  shows "n \<le> round_half_even x"
proof -
  from assms have "n \<le> \<lfloor>x\<rfloor>" by (simp add: le_floor_iff)
  then show ?thesis by (auto simp: round_half_even_def Let_def)
qed

lemma fl_nonzero:
  assumes "x \<noteq> 0" and "e = max (ilog2 \<bar>x\<bar>) (- 1022)"
    and "y = of_int (round_half_even (x / pow2 (e - 52))) * pow2 (e - 52)"
    and "\<bar>y\<bar> < pow2 1024"
  shows "fl x = Fin y"
  using assms by (simp add: fl_def Let_def)

lemma pow2_nonzero [simp]: "pow2 k \<noteq> 0"
  using pow2_pos[of k] by (simp del: pow2_pos)

lemma fl_exact:
  assumes x: "x = of_int m * pow2 k" and m: "\<bar>m\<bar> < 2 ^ 53" and k: "- 1074 \<le> k" "k \<le> 971"
  shows "fl x = Fin x"
proof (cases "x = 0")
  case True
  then show ?thesis by (simp add: fl_def)
next
  case False
  have ax: "\<bar>x\<bar> = of_int \<bar>m\<bar> * pow2 k" by (simp add: x abs_mult abs_of_pos)
  have pos: "0 < \<bar>x\<bar>" using False by simp
  define e where "e = max (ilog2 \<bar>x\<bar>) (- 1022)"
  have "of_int \<bar>m\<bar> < (of_int (2 ^ 53) :: rat)" using m by (simp only: of_int_less_iff)
  then have "\<bar>x\<bar> < pow2 (int 53) * pow2 k" unfolding ax pow2_nat by simp
  then have up: "\<bar>x\<bar> < pow2 (53 + k)" by (simp add: pow2_add)
  then have "ilog2 \<bar>x\<bar> < 53 + k" by (rule ilog2_less[OF pos])
  then have ek: "e - 52 \<le> k" using k by (simp add: e_def)
  define j where "j = nat (k - (e - 52))"
  have kj: "k = (e - 52) + int j" using ek by (simp add: j_def)
  have "x = of_int m * (pow2 (e - 52) * pow2 (int j))"
    unfolding x by (subst kj) (simp add: pow2_add)
  then have xq: "x = of_int (m * 2 ^ j) * pow2 (e - 52)" by (simp add: pow2_nat)
  have "x / pow2 (e - 52) = of_int (m * 2 ^ j)" by (subst xq) simp
  then have "round_half_even (x / pow2 (e - 52)) = m * 2 ^ j"
    by (simp only: round_half_even_of_int)
  then have y: "x = of_int (round_half_even (x / pow2 (e - 52))) * pow2 (e - 52)"
    using xq by (simp only:)
  have "pow2 (53 + k) \<le> pow2 1024" using k by (intro pow2_mono) simp
  with up have "\<bar>x\<bar> < pow2 1024" by simp
  with fl_nonzero[OF False e_def y] show ?thesis by simp
qed

lemma fl_of_int: "\<bar>n\<bar> < 2 ^ 53 \<Longrightarrow> fl (of_int n) = Fin (of_int n)"
  using fl_exact[of "of_int n" n 0] by (simp add: pow2_def)

lemma fl_error:
  assumes lo: "pow2 (- 1022) \<le> \<bar>x\<bar>" and hi: "\<bar>x\<bar> \<le> pow2 1023"
  shows "\<exists>y. fl x = Fin y \<and> \<bar>y - x\<bar> \<le> \<bar>x\<bar> / 2 ^ 53"
proof -
  have pos: "0 < \<bar>x\<bar>" using lo pow2_pos[of "- 1022"] by linarith
  then have x0: "x \<noteq> 0" by simp
  define e where "e = ilog2 \<bar>x\<bar>"
  have b: "pow2 e \<le> \<bar>x\<bar>" "\<bar>x\<bar> < pow2 (e + 1)"
    using ilog2_bounds[OF pos] by (simp_all add: e_def)
  have elo: "- 1022 \<le> e" unfolding e_def using pos lo by (rule ilog2_ge)
  have "\<bar>x\<bar> < pow2 (1023 + 1)" using hi pow2_pos[of 1023] unfolding pow2_Suc by linarith
  then have "e < 1024" unfolding e_def using ilog2_less[OF pos] by simp
  then have ehi: "pow2 e \<le> pow2 1023" by (intro pow2_mono) simp
  have me: "e = max (ilog2 \<bar>x\<bar>) (- 1022)" using elo by (simp add: e_def)
  define q :: rat where "q = pow2 (e - 52)"
  have qpos: "0 < q" by (simp add: q_def)
  define y where "y = of_int (round_half_even (x / q)) * q"
  have "y - x = (of_int (round_half_even (x / q)) - x / q) * q"
    using qpos by (simp add: y_def left_diff_distrib)
  then have "\<bar>y - x\<bar> = \<bar>of_int (round_half_even (x / q)) - x / q\<bar> * q"
    using qpos by (simp add: abs_mult abs_of_pos)
  also have "\<dots> \<le> 1 / 2 * q"
    using round_half_even_error[of "x / q"] qpos by (intro mult_right_mono) simp_all
  finally have err: "\<bar>y - x\<bar> \<le> q / 2" by simp
  have qe: "q = pow2 e / 2 ^ 52" unfolding q_def pow2_diff using pow2_nat[of 52] by simp
  have half: "q / 2 \<le> \<bar>x\<bar> / 2 ^ 53" using b(1) by (simp add: qe field_simps)
  have "q / 2 < pow2 e" using pow2_pos[of e] by (simp add: qe)
  then have small: "q / 2 < pow2 1023" using ehi by linarith
  have "\<bar>y\<bar> \<le> \<bar>x\<bar> + q / 2" using err by linarith
  also have "\<dots> < pow2 1023 + pow2 1023" using hi small by linarith
  also have "\<dots> = pow2 (1023 + 1)" unfolding pow2_Suc by simp
  finally have "\<bar>y\<bar> < pow2 1024" by simp
  with fl_nonzero[OF x0 me, of y] have "fl x = Fin y" by (simp add: y_def q_def)
  then show ?thesis using err half by auto
qed

lemma fl_bounded:
  assumes x: "0 \<le> x" "x \<le> of_int N" and N: "N < 2 ^ 53"
  shows "\<exists>y. fl x = Fin y \<and> 0 \<le> y \<and> y \<le> of_int N"
proof (cases "x = 0")
  case True
  then show ?thesis using x by (simp add: fl_def)
next
  case False
  then have pos: "0 < \<bar>x\<bar>" and ax: "\<bar>x\<bar> = x" using x by simp_all
  define e where "e = max (ilog2 \<bar>x\<bar>) (- 1022)"
  have N53: "of_int N < (of_int (2 ^ 53) :: rat)" using N by (simp only: of_int_less_iff)
  then have "\<bar>x\<bar> < pow2 (int 53)" using x(2) ax unfolding pow2_nat by simp
  then have "ilog2 \<bar>x\<bar> < 53" using ilog2_less[OF pos] by simp
  then have e52: "e \<le> 52" by (simp add: e_def)
  define j where "j = nat (52 - e)"
  define q :: rat where "q = pow2 (e - 52)"
  have qpos: "0 < q" by (simp add: q_def)
  have "e - 52 = - int j" using e52 by (simp add: j_def)
  then have qj: "q = 1 / 2 ^ j" by (simp add: q_def pow2_neg_nat)
  have Nq: "of_int N / q = of_int (N * 2 ^ j)" by (simp add: qj)
  define r where "r = round_half_even (x / q)"
  have "x / q \<le> of_int N / q" using x(2) qpos by (simp add: divide_right_mono)
  then have r1: "r \<le> N * 2 ^ j" unfolding r_def Nq by (rule round_half_even_le)
  have "of_int 0 \<le> x / q" using x(1) qpos by simp
  then have r0: "0 \<le> r" unfolding r_def by (rule round_half_even_ge)
  define y where "y = of_int r * q"
  have y0: "0 \<le> y" using r0 qpos by (simp add: y_def)
  have "of_int r \<le> (of_int (N * 2 ^ j) :: rat)" using r1 by (simp only: of_int_le_iff)
  then have "y \<le> of_int (N * 2 ^ j) * q" unfolding y_def using qpos by (intro mult_right_mono) simp_all
  also have "\<dots> = of_int N" by (simp add: qj)
  finally have yN: "y \<le> of_int N" .
  have "pow2 (int 53) \<le> pow2 1024" by (intro pow2_mono) simp
  then have "\<bar>y\<bar> < pow2 1024" using yN y0 N53 unfolding pow2_nat by simp
  with fl_nonzero[OF False e_def, of y] have "fl x = Fin y" by (simp add: y_def r_def q_def)
  then show ?thesis using y0 yN by auto
qed

section \<open>The rate table\<close>

lemma map_of_map_set: "map_of (map_set m k v) = (map_of m)(k \<mapsto> v)"
  by (simp add: map_set_def update_conv')

text \<open>A sequence of \<^verbatim>\<open>set\<close> calls: the last write to a key wins.\<close>

lemma map_of_foldl_map_set:
  "map_of (foldl (\<lambda>rates (key, value). map_set rates key value) r ws) x
     = (case map_of (rev ws) x of Some v \<Rightarrow> Some v | None \<Rightarrow> map_of r x)"
proof (induction ws arbitrary: r)
  case Nil
  then show ?case by simp
next
  case (Cons w ws)
  obtain k v where w: "w = (k, v)" by (cases w)
  show ?case
    by (simp add: w Cons.IH map_of_map_set map_add_def split: option.split)
qed

lemma map_of_rev_distinct:
  "distinct (map fst ws) \<Longrightarrow> (k, v) \<in> set ws \<Longrightarrow> map_of (rev ws) k = Some v"
  by (rule map_of_is_SomeI) (simp_all add: rev_map[symmetric])

lemma MOCK_RATES_keys:
  "map fst MOCK_RATES =
     [''USD_EUR'', ''USD_GBP'', ''USD_JPY'', ''EUR_USD'', ''EUR_GBP'', ''EUR_JPY'',
      ''GBP_USD'', ''GBP_EUR'', ''GBP_JPY'', ''JPY_USD'', ''JPY_EUR'', ''JPY_GBP'']"
  by (simp add: MOCK_RATES_def)

lemma distinct_MOCK_RATES: "distinct (map fst MOCK_RATES)"
  unfolding MOCK_RATES_keys by simp

text \<open>
  Claim C5. \<^verbatim>\<open>buildExchangeRates\<close> applied to an absent snapshot or to a snapshot with
  no keys returns the static table itself: the twelve fiat keys, in the order of the
  source, each once, with the rates of \<^verbatim>\<open>MOCK_RATES\<close>.
\<close>

theorem buildExchangeRates_empty_snapshot:
  "buildExchangeRates None = MOCK_RATES \<and> buildExchangeRates (Some []) = MOCK_RATES
   \<and> map fst MOCK_RATES =
       [''USD_EUR'', ''USD_GBP'', ''USD_JPY'', ''EUR_USD'', ''EUR_GBP'', ''EUR_JPY'',
        ''GBP_USD'', ''GBP_EUR'', ''GBP_JPY'', ''JPY_USD'', ''JPY_EUR'', ''JPY_GBP'']
   \<and> length MOCK_RATES = 12 \<and> distinct (map fst MOCK_RATES)"
proof -
  have "length MOCK_RATES = 12" by (simp add: MOCK_RATES_def)
  then show ?thesis
    using MOCK_RATES_keys distinct_MOCK_RATES by (simp add: buildExchangeRates_def)
qed

lemma static_entry_in_built_table:
  assumes "(k, v) \<in> set MOCK_RATES"
  shows "map_of (buildExchangeRates prices) k = Some v"
proof -
  have m: "map_of MOCK_RATES k = Some v"
    using assms distinct_MOCK_RATES by simp
  have r: "map_of (rev MOCK_RATES) k = Some v"
    using assms distinct_MOCK_RATES by (rule map_of_rev_distinct[rotated])
  have merged:
    "map_of (foldl (\<lambda>rates (key, value). map_set rates key value) r0 MOCK_RATES) k = Some v"
    for r0 by (simp add: map_of_foldl_map_set r)
  show ?thesis
  proof (cases prices)
    case None
    then show ?thesis using m by (simp add: buildExchangeRates_def)
  next
    case (Some ps)
    then show ?thesis using m merged by (simp add: buildExchangeRates_def Let_def)
  qed
qed

text \<open>
  Claim C6. Whatever the snapshot, every entry of the static table is an entry of the
  table that \<^verbatim>\<open>buildExchangeRates\<close> returns: the static entries are written last, so
  a derived rate under the same key is replaced by the static rate.
\<close>

theorem static_rates_win:
  assumes "(k, v) \<in> set MOCK_RATES"
  shows "map_of (buildExchangeRates prices) k = Some v"
  using assms by (rule static_entry_in_built_table)

text \<open>
  The snapshot of the witness prices both USD and EUR, so the cross rate USD_EUR = 2 / 4
  is derived first and then replaced by the static 0.85.
\<close>

theorem static_rates_win_witness:
  "(''USD_EUR'', lit (85 / 100)) \<in> set MOCK_RATES
   \<and> map_of (buildExchangeRates (Some [(''USD'', Some (Fin 2)), (''EUR'', Some (Fin 4))]))
         ''USD_EUR''
       = Some (lit (85 / 100))"
proof -
  have h: "(''USD_EUR'', lit (85 / 100)) \<in> set MOCK_RATES" by (simp add: MOCK_RATES_def)
  from static_rates_win[OF h] show ?thesis using h by simp
qed


section \<open>The conversion engine\<close>

text \<open>
  Claim C10. For every currency code, also one that no key of the table mentions,
  \<^verbatim>\<open>getConversionRate(c, c)\<close> returns 1: the comparison of the two codes comes before
  the lookup, whatever the globals hold.
\<close>

theorem getConversionRate_same_currency:
  "getConversionRate c c s = (Inr (Fin 1), s)"
  by (simp add: getConversionRate_def)

text \<open>
  Claim C4. \<^verbatim>\<open>validateInput\<close> throws exactly when its argument is not a finite number,
  is negative, or exceeds 1,000,000, and returns the argument unchanged otherwise; it
  rejects -1, \<^verbatim>\<open>NaN\<close> and 1000001 and accepts 0 and 1000000.
\<close>

theorem validateInput_accepts_exactly:
  "(spec_rejects v \<longrightarrow> (\<exists>e. validateInput v = Inl e))
   \<and> (\<not> spec_rejects v \<longrightarrow> validateInput v = Inr v)
   \<and> validateInput (JNumber (Fin (- 1))) = Inl (Error ''Input must be non-negative'')
   \<and> validateInput (JNumber NaN) = Inl (Error ''Input must be a valid number'')
   \<and> validateInput (JNumber (Fin 1000001)) = Inl (Error ''Amount too large'')
   \<and> validateInput (JNumber (Fin 0)) = Inr (JNumber (Fin 0))
   \<and> validateInput (JNumber (Fin 1000000)) = Inr (JNumber (Fin 1000000))"
proof -
  have general: "(spec_rejects v \<longrightarrow> (\<exists>e. validateInput v = Inl e))
      \<and> (\<not> spec_rejects v \<longrightarrow> validateInput v = Inr v)"
  proof (cases v)
    case (JNumber n)
    then show ?thesis
      by (cases n) (auto simp: spec_rejects_def validateInput_def js_gt_def)
  qed (simp_all add: spec_rejects_def validateInput_def)
  have "validateInput (JNumber (Fin (- 1))) = Inl (Error ''Input must be non-negative'')"
    and "validateInput (JNumber NaN) = Inl (Error ''Input must be a valid number'')"
    and "validateInput (JNumber (Fin 1000001)) = Inl (Error ''Amount too large'')"
    and "validateInput (JNumber (Fin 0)) = Inr (JNumber (Fin 0))"
    and "validateInput (JNumber (Fin 1000000)) = Inr (JNumber (Fin 1000000))"
    by (simp_all add: validateInput_def js_gt_def)
  with general show ?thesis by blast
qed

theorem validateInput_accepts_exactly_witness:
  "spec_rejects (JString ''12'') \<and> (\<exists>e. validateInput (JString ''12'') = Inl e)
   \<and> spec_rejects (JNumber PosInf) \<and> (\<exists>e. validateInput (JNumber PosInf) = Inl e)
   \<and> \<not> spec_rejects (JNumber (Fin 250)) \<and> validateInput (JNumber (Fin 250)) = Inr (JNumber (Fin 250))"
  using validateInput_accepts_exactly[of "JString ''12''"]
    validateInput_accepts_exactly[of "JNumber PosInf"]
    validateInput_accepts_exactly[of "JNumber (Fin 250)"]
  by (simp add: spec_rejects_def)

text \<open>
  Claim C3. When the two currencies differ and the key FROM_TO is not in the current
  table, the rate lookup and \<^verbatim>\<open>performConversion\<close> (for every amount in cents) fail with
  the error whose message names the key, leaving the globals as they were; the whole
  conversion never returns a number, and its error is that one whenever the amount
  passes validation (an amount that does not is refused by \<^verbatim>\<open>validateInput\<close> first).
\<close>

theorem rate_unavailable_is_an_error:
  assumes "fromCurrency \<noteq> toCurrency"
    and "\<not> map_has (exchangeRates s) (fromCurrency @ ''_'' @ toCurrency)"
  shows "getConversionRate fromCurrency toCurrency s
           = (Inl (Error (''Exchange rate not available for '' @ fromCurrency @ ''_'' @ toCurrency)), s)
       \<and> performConversion amountInCents fromCurrency toCurrency s
           = (Inl (Error (''Exchange rate not available for '' @ fromCurrency @ ''_'' @ toCurrency)), s)
       \<and> (\<exists>e. convert amount fromCurrency toCurrency s = (Inl e, s))
       \<and> (validateInput (JNumber amount) = Inr (JNumber amount) \<longrightarrow>
            convert amount fromCurrency toCurrency s
              = (Inl (Error (''Exchange rate not available for '' @ fromCurrency @ ''_'' @ toCurrency)), s))"
proof -
  have g: "getConversionRate fromCurrency toCurrency s
      = (Inl (Error (''Exchange rate not available for '' @ fromCurrency @ ''_'' @ toCurrency)), s)"
    using assms by (simp add: getConversionRate_def map_has_def)
  then have p: "performConversion a fromCurrency toCurrency s
      = (Inl (Error (''Exchange rate not available for '' @ fromCurrency @ ''_'' @ toCurrency)), s)"
    for a by (simp add: performConversion_def)
  show ?thesis using g p by (auto simp: convert_def split: sum.split)
qed

theorem rate_unavailable_is_an_error_witness:
  "''USD'' \<noteq> ''BTC''
   \<and> \<not> map_has MOCK_RATES (''USD'' @ ''_'' @ ''BTC'')
   \<and> getConversionRate ''USD'' ''BTC'' \<lparr>exchangeRates = MOCK_RATES, pricesCache = None, formatters = []\<rparr>
       = (Inl (Error ''Exchange rate not available for USD_BTC''),
          \<lparr>exchangeRates = MOCK_RATES, pricesCache = None, formatters = []\<rparr>)
   \<and> performConversion (Fin 100) ''USD'' ''BTC'' \<lparr>exchangeRates = MOCK_RATES, pricesCache = None, formatters = []\<rparr>
       = (Inl (Error ''Exchange rate not available for USD_BTC''),
          \<lparr>exchangeRates = MOCK_RATES, pricesCache = None, formatters = []\<rparr>)
   \<and> convert (Fin 1) ''USD'' ''BTC'' \<lparr>exchangeRates = MOCK_RATES, pricesCache = None, formatters = []\<rparr>
       = (Inl (Error ''Exchange rate not available for USD_BTC''),
          \<lparr>exchangeRates = MOCK_RATES, pricesCache = None, formatters = []\<rparr>)"
proof -
  have h: "\<not> map_has (exchangeRates \<lparr>exchangeRates = MOCK_RATES, pricesCache = None, formatters = []\<rparr>)
      (''USD'' @ ''_'' @ ''BTC'')"
    by (simp add: map_has_def MOCK_RATES_def)
  have v: "validateInput (JNumber (Fin 1)) = Inr (JNumber (Fin 1))"
    by (simp add: validateInput_def js_gt_def)
  have d: "''USD'' \<noteq> ''BTC''" by simp
  from rate_unavailable_is_an_error[OF d h, of "Fin 100" "Fin 1"] v h show ?thesis by simp
qed

text \<open>
  Claim C9. \<^verbatim>\<open>getConversionRate\<close> and \<^verbatim>\<open>performConversion\<close> return the globals (rate
  table, price cache, formatter cache) as they received them, a second call after the
  first returns the same, and the result depends on the globals through the rate table
  only.
\<close>

theorem performConversion_pure:
  "snd (getConversionRate fromCurrency toCurrency s) = s
   \<and> snd (performConversion amountInCents fromCurrency toCurrency s) = s
   \<and> performConversion amountInCents fromCurrency toCurrency
        (snd (performConversion amountInCents fromCurrency toCurrency s))
       = performConversion amountInCents fromCurrency toCurrency s
   \<and> (exchangeRates s' = exchangeRates s \<longrightarrow>
        fst (performConversion amountInCents fromCurrency toCurrency s')
          = fst (performConversion amountInCents fromCurrency toCurrency s))"
proof -
  have g: "snd (getConversionRate fromCurrency toCurrency s) = s"
    by (simp add: getConversionRate_def Let_def split: option.split)
  have p: "snd (performConversion amountInCents fromCurrency toCurrency s) = s"
    by (simp add: performConversion_def getConversionRate_def Let_def split: option.split)
  have d: "fst (performConversion amountInCents fromCurrency toCurrency s')
      = fst (performConversion amountInCents fromCurrency toCurrency s)"
    if "exchangeRates s' = exchangeRates s"
    using that by (simp add: performConversion_def getConversionRate_def Let_def split: option.split)
  show ?thesis using g p d by simp
qed

theorem performConversion_pure_witness:
  "exchangeRates \<lparr>exchangeRates = MOCK_RATES, pricesCache = Some [], formatters = [''USD'']\<rparr>
     = exchangeRates \<lparr>exchangeRates = MOCK_RATES, pricesCache = None, formatters = []\<rparr>
   \<and> fst (performConversion (Fin 100) ''USD'' ''JPY''
        \<lparr>exchangeRates = MOCK_RATES, pricesCache = Some [], formatters = [''USD'']\<rparr>)
     = fst (performConversion (Fin 100) ''USD'' ''JPY''
        \<lparr>exchangeRates = MOCK_RATES, pricesCache = None, formatters = []\<rparr>)
   \<and> snd (performConversion (Fin 100) ''USD'' ''JPY''
        \<lparr>exchangeRates = MOCK_RATES, pricesCache = None, formatters = []\<rparr>)
     = \<lparr>exchangeRates = MOCK_RATES, pricesCache = None, formatters = []\<rparr>"
  using performConversion_pure[of "''USD''" "''JPY''"
      "\<lparr>exchangeRates = MOCK_RATES, pricesCache = None, formatters = []\<rparr>" "Fin 100"
      "\<lparr>exchangeRates = MOCK_RATES, pricesCache = Some [], formatters = [''USD'']\<rparr>"]
  by simp

section \<open>The three sums\<close>

text \<open>Sums of naturals below \<open>2 ^ 53\<close> are computed without rounding.\<close>

lemma fl_of_nat: "n < 2 ^ 53 \<Longrightarrow> fl (of_nat n) = Fin (of_nat n)"
  using fl_of_int[of "int n"] by simp

lemma fl_nat_add:
  "a + b < 2 ^ 53 \<Longrightarrow> fl (of_nat a + of_nat b) = Fin (of_nat a + of_nat b)"
  using fl_of_nat[of "a + b"] by simp

lemma sum_list_Suc_upt: "sum_list (map Suc [0..<n]) = n * (n + 1) div 2"
proof (induction n)
  case 0
  then show ?case by simp
next
  case (Suc n)
  have "Suc n * (Suc n + 1) = n * (n + 1) + Suc n * 2" by simp
  then have "Suc n * (Suc n + 1) div 2 = n * (n + 1) div 2 + Suc n"
    by (simp only: div_mult_self3) simp
  then show ?case using Suc.IH by simp
qed

lemma foldl_js_add_nat:
  "a + sum_list xs < 2 ^ 53 \<Longrightarrow>
   foldl (\<lambda>acc num. js_add acc num) (Fin (of_nat a)) (map (\<lambda>x. Fin (of_nat x)) xs)
     = Fin (of_nat (a + sum_list xs))"
proof (induction xs arbitrary: a)
  case Nil
  then show ?case by simp
next
  case (Cons x xs)
  have "a + x < 2 ^ 53" using Cons.prems by simp
  then have step: "fl (of_nat a + of_nat x) = Fin (of_nat a + of_nat x)"
    by (rule fl_nat_add)
  have "(a + x) + sum_list xs < 2 ^ 53" using Cons.prems by simp
  from Cons.IH[OF this] show ?case by (simp add: step add.assoc)
qed

lemma sumIteratively_loop_nat:
  assumes "i \<le> Suc n" and "Suc (Suc n) < 2 ^ 53" and "acc + sum_list [i..<Suc n] < 2 ^ 53"
  shows "sumIteratively_loop (Fin (of_nat n)) (Fin (of_nat i)) (Fin (of_nat acc))
           = Some (Fin (of_nat (acc + sum_list [i..<Suc n])))"
  using assms
proof (induction "Suc n - i" arbitrary: i acc)
  case 0
  then have i: "i = Suc n" by simp
  have "\<not> js_le (Fin (of_nat (Suc n))) (Fin (of_nat n))"
    by (simp add: js_le_def)
  then show ?case unfolding i by (subst sumIteratively_loop.simps) simp
next
  case (Suc d)
  then have le: "i \<le> n" by simp
  then have c: "js_le (Fin (of_nat i)) (Fin (of_nat n))" by (simp add: js_le_def)
  have l: "[i..<Suc n] = i # [Suc i..<Suc n]" using le by (simp add: upt_conv_Cons)
  have bound: "acc + i + sum_list [Suc i..<Suc n] < 2 ^ 53"
    using Suc.prems(3) unfolding l by (simp only: sum_list.Cons add.assoc)
  have i1: "fl (of_nat i + 1) = Fin (of_nat i + 1)"
    using fl_nat_add[of i 1] le Suc.prems(2) by simp
  have a1: "fl (of_nat acc + of_nat i) = Fin (of_nat acc + of_nat i)"
    using bound by (intro fl_nat_add) simp
  have "sumIteratively_loop (Fin (of_nat n)) (Fin (of_nat (Suc i))) (Fin (of_nat (acc + i)))
      = Some (Fin (of_nat ((acc + i) + sum_list [Suc i..<Suc n])))"
  proof (rule Suc.hyps(1))
    show "d = Suc n - Suc i" using Suc.hyps(2) by simp
    show "Suc i \<le> Suc n" using le by simp
    show "Suc (Suc n) < 2 ^ 53" by (rule Suc.prems(2))
    show "acc + i + sum_list [Suc i..<Suc n] < 2 ^ 53" by (rule bound)
  qed
  then have next_call:
    "sumIteratively_loop (Fin (of_nat n)) (Fin (of_nat i + 1)) (Fin (of_nat acc + of_nat i))
      = Some (Fin (of_nat (acc + sum_list [i..<Suc n])))"
    unfolding l by (simp add: add.assoc add.commute[of 1])
  show ?case
    by (subst sumIteratively_loop.simps) (simp only: c if_True js_add.simps i1 a1 next_call)
qed

lemma triangle_bound:
  assumes "n * (n + 1) div 2 < 2 ^ 53"
  shows "(n::nat) < 2 ^ 27"
proof (rule ccontr)
  assume "\<not> n < 2 ^ 27"
  then have n: "2 ^ 27 \<le> n" by simp
  then have "2 ^ 27 * (2 ^ 27 + 1) \<le> n * (n + 1)" by (intro mult_le_mono) simp_all
  then have "(2 ^ 27 * (2 ^ 27 + 1)) div 2 \<le> n * (n + 1) div 2" by (rule div_le_mono)
  with assms show False by simp
qed

text \<open>
  Claim C8, as amended. For every non-negative integer \<open>n\<close> whose sum
  \<open>n * (n + 1) / 2\<close> is below \<open>2 ^ 53\<close> (at most \<^verbatim>\<open>Number.MAX_SAFE_INTEGER\<close>, that is
  \<open>n \<le> 134217727\<close>), \<^verbatim>\<open>sumIteratively\<close> terminates and the three functions return the
  same value, exactly \<open>n * (n + 1) / 2\<close>.
\<close>

theorem sums_agree_in_safe_range:
  assumes "n * (n + 1) div 2 < 2 ^ 53"
  shows "sumIteratively (Fin (of_nat n)) = Some (Fin (of_nat (n * (n + 1) div 2)))
       \<and> sumWithReduce (Fin (of_nat n)) = Inr (Fin (of_nat (n * (n + 1) div 2)))
       \<and> sumWithFormula (Fin (of_nat n)) = Fin (of_nat (n * (n + 1) div 2))"
proof -
  define T where "T = n * (n + 1) div 2"
  have T: "T < 2 ^ 53" using assms by (simp add: T_def)
  have n27: "n < 2 ^ 27" using assms by (rule triangle_bound)
  have sumT: "sum_list [Suc 0..<Suc n] = T"
    using sum_list_Suc_upt[of n] by (simp only: map_Suc_upt T_def)
  have it: "sumIteratively (Fin (of_nat n)) = Some (Fin (of_nat T))"
  proof -
    have "sumIteratively_loop (Fin (of_nat n)) (Fin (of_nat (Suc 0))) (Fin (of_nat 0))
        = Some (Fin (of_nat (0 + sum_list [Suc 0..<Suc n])))"
    proof (rule sumIteratively_loop_nat)
      show "Suc 0 \<le> Suc n" by simp
      show "Suc (Suc n) < 2 ^ 53" using n27 by simp
      show "0 + sum_list [Suc 0..<Suc n] < 2 ^ 53" using T by (simp only: sumT add_0)
    qed
    then have "sumIteratively_loop (Fin (of_nat n)) (Fin 1) (Fin 0) = Some (Fin (of_nat T))"
      by (simp only: sumT add_0 of_nat_0 of_nat_Suc) simp
    then show ?thesis by (simp only: sumIteratively_def)
  qed
  have len: "ToLength (Fin (of_nat n)) = n"
    using n27 by (simp add: ToLength_def)
  have elems: "map (\<lambda>i. js_add (Fin (of_nat i)) (Fin 1)) [0..<n]
      = map (\<lambda>x. Fin (of_nat x)) (map Suc [0..<n])"
  proof -
    have "js_add (Fin (of_nat i)) (Fin 1) = Fin (of_nat (Suc i))" if "i < n" for i
      using fl_nat_add[of i 1] that n27 by (simp add: add.commute)
    then show ?thesis by simp
  qed
  have "foldl (\<lambda>acc num. js_add acc num) (Fin (of_nat 0)) (map (\<lambda>x. Fin (of_nat x)) (map Suc [0..<n]))
      = Fin (of_nat (0 + sum_list (map Suc [0..<n])))"
  proof (rule foldl_js_add_nat)
    show "0 + sum_list (map Suc [0..<n]) < 2 ^ 53"
      using T by (simp only: sum_list_Suc_upt T_def add_0)
  qed
  then have "foldl (\<lambda>acc num. js_add acc num) (Fin 0) (map (\<lambda>i. js_add (Fin (of_nat i)) (Fin 1)) [0..<n])
      = Fin (of_nat T)"
    by (simp only: elems sum_list_Suc_upt T_def add_0 of_nat_0)
  then have red: "sumWithReduce (Fin (of_nat n)) = Inr (Fin (of_nat T))"
    using n27 by (simp add: sumWithReduce_def len)
  have even: "n * (n + 1) = 2 * T" by (simp add: T_def)
  have s1: "fl (of_nat n + 1) = Fin (of_nat n + 1)"
    using fl_nat_add[of n 1] n27 by simp
  have "fl (of_int (int T) * pow2 1) = Fin (of_int (int T) * pow2 1)"
    using T by (intro fl_exact[of _ "int T" 1]) simp_all
  then have "fl (of_nat (2 * T)) = Fin (of_nat (2 * T))"
    by (simp add: pow2_def mult.commute)
  then have twice: "fl (2 * of_nat T) = Fin (2 * of_nat T)"
    by simp
  have "(of_nat n :: rat) * (of_nat n + 1) = of_nat (n * (n + 1))"
    by (simp only: of_nat_mult of_nat_add of_nat_1)
  also have "\<dots> = 2 * of_nat T"
    by (simp only: even of_nat_mult of_nat_numeral)
  finally have s2: "fl (of_nat n * (of_nat n + 1)) = Fin (2 * of_nat T)"
    using twice by (simp only:)
  have s3: "fl (of_nat T) = Fin (of_nat T)"
    by (rule fl_of_nat[OF T])
  have form: "sumWithFormula (Fin (of_nat n)) = Fin (of_nat T)"
    by (simp add: sumWithFormula_def s1 s2 s3)
  show ?thesis using it red form unfolding T_def by simp
qed

theorem sums_agree_in_safe_range_witness:
  "(10::nat) * (10 + 1) div 2 < 2 ^ 53
   \<and> sumIteratively (Fin 10) = Some (Fin 55)
   \<and> sumWithReduce (Fin 10) = Inr (Fin 55)
   \<and> sumWithFormula (Fin 10) = Fin 55"
  using sums_agree_in_safe_range[of 10] by simp

text \<open>
  Claim C8 as stated, for every non-negative integer, fails at \<open>n = 2 ^ 32\<close>:
  \<^verbatim>\<open>sumWithReduce\<close> throws the \<^verbatim>\<open>RangeError\<close> of an array length above \<open>2 ^ 32 - 1\<close>,
  while \<^verbatim>\<open>sumWithFormula\<close> returns \<open>2 ^ 63 + 2 ^ 31\<close>.
\<close>

theorem sumWithReduce_range_error:
  "sumWithReduce (Fin 4294967296) = Inl (RangeError ''Invalid array length'')
   \<and> sumWithFormula (Fin 4294967296) = Fin 9223372039002259456"
proof -
  have r: "sumWithReduce (Fin 4294967296) = Inl (RangeError ''Invalid array length'')"
    by (simp add: sumWithReduce_def ToLength_def)
  have a: "fl 4294967297 = Fin 4294967297"
    using fl_of_int[of 4294967297] by simp
  have "fl (of_int 4294967297 * pow2 32) = Fin (of_int 4294967297 * pow2 32)"
    by (intro fl_exact[of _ 4294967297 32]) simp_all
  then have m: "fl 18446744078004518912 = Fin 18446744078004518912"
    by (simp add: pow2_def)
  have "fl (of_int 4294967297 * pow2 31) = Fin (of_int 4294967297 * pow2 31)"
    by (intro fl_exact[of _ 4294967297 31]) simp_all
  then have d: "fl 9223372039002259456 = Fin 9223372039002259456"
    by (simp add: pow2_def)
  show ?thesis using r by (simp add: sumWithFormula_def a m d)
qed

section \<open>The conversion pipeline\<close>

lemma unit_roundoff_pos: "0 < unit_roundoff"
  by (simp add: unit_roundoff_def)

lemma unit_roundoff_small: "unit_roundoff * 1000000000000 < 1 / 1000"
  by (simp add: unit_roundoff_def)

lemma unit_roundoff_tiny: "unit_roundoff * 1000000000000000 < 1 / 8"
  by (simp add: unit_roundoff_def)

lemma fl_error_mid:
  assumes "1 / 1024 \<le> \<bar>x\<bar>" and "\<bar>x\<bar> \<le> 2 ^ 60"
  shows "\<exists>y. fl x = Fin y \<and> \<bar>y - x\<bar> \<le> \<bar>x\<bar> * unit_roundoff"
proof -
  have "pow2 (- 1022) \<le> pow2 (- int 10)" by (rule pow2_mono) simp
  also have "\<dots> = 1 / 1024" unfolding pow2_neg_nat by simp
  finally have lo: "pow2 (- 1022) \<le> \<bar>x\<bar>" using assms(1) by simp
  have "\<bar>x\<bar> \<le> pow2 (int 60)" using assms(2) unfolding pow2_nat .
  also have "\<dots> \<le> pow2 1023" by (rule pow2_mono) simp
  finally have hi: "\<bar>x\<bar> \<le> pow2 1023" .
  from fl_error[OF lo hi] show ?thesis by (simp add: unit_roundoff_def)
qed

lemma round_close:
  fixes y z :: rat
  assumes "\<bar>y - z\<bar> < 1"
  shows "\<bar>\<lfloor>y + 1 / 2\<rfloor> - \<lfloor>z + 1 / 2\<rfloor>\<bar> \<le> 1"
proof -
  define a b where "a = \<lfloor>y + 1 / 2\<rfloor>" and "b = \<lfloor>z + 1 / 2\<rfloor>"
  have A: "of_int a \<le> y + 1 / 2" "y + 1 / 2 < of_int a + 1"
    unfolding a_def by linarith+
  have B: "of_int b \<le> z + 1 / 2" "z + 1 / 2 < of_int b + 1"
    unfolding b_def by linarith+
  have "(of_int (a - b) :: rat) < 2" "(of_int (b - a) :: rat) < 2"
    using A B assms by (simp_all add: abs_less_iff)
  then have "a - b < 2" "b - a < 2" by (simp_all only: of_int_less_numeral_iff)
  then show ?thesis unfolding a_def[symmetric] b_def[symmetric] by linarith
qed

lemma floor_half: "\<lfloor>1 / 2 :: rat\<rfloor> = 0"
  by (rule floor_unique) simp_all

lemma Math_round_of_int: "Math_round (Fin (of_int c)) = Fin (of_int c)"
proof -
  have "\<lfloor>(of_int c :: rat) + 1 / 2\<rfloor> = c" by (rule floor_unique) simp_all
  then show ?thesis by simp
qed

lemma whole_cents:
  assumes k: "0 \<le> k" "k \<le> 100000000" and x: "lit (of_int k / 100) = Fin x"
  shows "convertToCents (Fin x) = Fin (of_int k)"
    and "0 \<le> x" and "x \<le> 1000000"
    and "\<bar>x * 100 - of_int k\<bar> \<le> of_int k * unit_roundoff"
proof -
  define q :: rat where "q = of_int k / 100"
  note u = unit_roundoff_pos unit_roundoff_small
  have q: "0 \<le> q" "q \<le> of_int 1000000" using k by (simp_all add: q_def)
  from fl_bounded[OF q] x show x0: "0 \<le> x" and x6: "x \<le> 1000000"
    by (auto simp: lit_def q_def)
  have "convertToCents (Fin x) = Fin (of_int k)
      \<and> \<bar>x * 100 - of_int k\<bar> \<le> of_int k * unit_roundoff"
  proof (cases "k = 0")
    case True
    then have "x = 0" using x by (simp add: lit_def fl_def)
    then show ?thesis using True floor_half by (simp add: convertToCents_def fl_def)
  next
    case False
    then have k1: "1 \<le> k" using k by simp
    then have kr: "(1::rat) \<le> of_int k" "(of_int k :: rat) \<le> 100000000"
      using k by simp_all
    define w where "w = of_int k * unit_roundoff"
    have w: "0 \<le> w" "w < 1 / 1000"
    proof -
      show "0 \<le> w" using kr u(1) by (simp add: w_def)
      have "w \<le> 100000000 * unit_roundoff"
        unfolding w_def using kr(2) u(1) by (intro mult_right_mono) simp_all
      then show "w < 1 / 1000" using u by linarith
    qed
    have "1 / 1024 \<le> \<bar>q\<bar>" "\<bar>q\<bar> \<le> 2 ^ 60" using kr by (simp_all add: q_def)
    from fl_error_mid[OF this] x have e1: "\<bar>x - q\<bar> \<le> \<bar>q\<bar> * unit_roundoff"
      by (auto simp: lit_def q_def)
    have "x * 100 - of_int k = (x - q) * 100" by (simp add: q_def)
    then have "\<bar>x * 100 - of_int k\<bar> = \<bar>x - q\<bar> * 100" by (simp only: abs_mult abs_numeral)
    also have "\<dots> \<le> (\<bar>q\<bar> * unit_roundoff) * 100" using e1 by simp
    also have "\<dots> = w" using q(1) by (simp add: w_def q_def)
    finally have e1': "\<bar>x * 100 - of_int k\<bar> \<le> w" .
    have r1: "1 / 1024 \<le> \<bar>x * 100\<bar>" "\<bar>x * 100\<bar> \<le> 2 ^ 60" "\<bar>x * 100\<bar> \<le> of_int k + w"
      using e1' kr w by (simp_all add: abs_le_iff)
    from fl_error_mid[OF r1(1,2)] obtain y where y: "fl (x * 100) = Fin y"
      and e2: "\<bar>y - x * 100\<bar> \<le> \<bar>x * 100\<bar> * unit_roundoff" by blast
    have "\<bar>x * 100\<bar> * unit_roundoff \<le> (of_int k + w) * unit_roundoff"
      using r1(3) u(1) by (intro mult_right_mono) simp_all
    also have "\<dots> = w + w * unit_roundoff" by (simp add: w_def algebra_simps)
    also have "\<dots> \<le> w + w"
    proof -
      have "w * unit_roundoff \<le> w * 1" using w(1) u by (intro mult_left_mono) linarith+
      then show ?thesis by simp
    qed
    finally have e2': "\<bar>y - x * 100\<bar> \<le> w + w" using e2 by linarith
    have "\<bar>y - of_int k\<bar> < 1 / 2"
      using e1' e2' w by linarith
    then have "\<lfloor>y + 1 / 2\<rfloor> = k"
      by (intro floor_unique) linarith+
    then show ?thesis using y e1' by (simp add: convertToCents_def w_def)
  qed
  then show "convertToCents (Fin x) = Fin (of_int k)"
    and "\<bar>x * 100 - of_int k\<bar> \<le> of_int k * unit_roundoff" by simp_all
qed

lemma lit_of_int: "\<bar>n\<bar> < 2 ^ 53 \<Longrightarrow> lit (of_int n) = Fin (of_int n)"
  by (simp add: lit_def fl_of_int)

lemma validateInput_in_range:
  "0 \<le> x \<Longrightarrow> x \<le> 1000000 \<Longrightarrow> validateInput (JNumber (Fin x)) = Inr (JNumber (Fin x))"
  by (simp add: validateInput_def js_gt_def)

lemma performConversion_same_currency:
  assumes "\<bar>c\<bar> < 2 ^ 53"
  shows "performConversion (Fin (of_int c)) cur cur s = (Inr (Fin (of_int c)), s)"
proof -
  have "fl (of_int c) = Fin (of_int c)" using assms by (rule fl_of_int)
  then have "Math_round (js_mul (Fin (of_int c)) (Fin 1)) = Fin (of_int c)"
    using Math_round_of_int[of c] by simp
  then show ?thesis by (simp add: performConversion_def getConversionRate_def)
qed

lemma convertToCents_in_range:
  assumes "0 \<le> x" "x \<le> 1000000"
  shows "\<exists>c. convertToCents (Fin x) = Fin (of_int c) \<and> 0 \<le> c \<and> c \<le> 100000000"
proof -
  have "0 \<le> x * 100" "x * 100 \<le> of_int 100000000" using assms by simp_all
  from fl_bounded[OF this] obtain y where y: "fl (x * 100) = Fin y" "0 \<le> y" "y \<le> 100000000"
    by auto
  have "0 \<le> \<lfloor>y + 1 / 2\<rfloor>" using y(2) by simp
  moreover have "\<lfloor>y + 1 / 2\<rfloor> \<le> 100000000"
  proof -
    have "y + 1 / 2 < of_int (100000000 + 1)" using y(3) by simp
    then have "\<lfloor>y + 1 / 2\<rfloor> < 100000000 + 1" by (simp only: floor_less_iff)
    then show ?thesis by simp
  qed
  ultimately show ?thesis using y(1) by (simp add: convertToCents_def)
qed

text \<open>
  Claim C2, as amended. For every amount from 0 to 1,000,000 and every currency,
  converting from the currency to itself uses the rate 1 whatever the table holds, and
  returns the amount rounded to whole cents, \<^verbatim>\<open>convertFromCents(convertToCents(amount))\<close>;
  an amount that is a whole number of cents (the double nearest to \<open>k / 100\<close>) is
  returned unchanged.
\<close>

theorem convert_same_currency:
  assumes "0 \<le> x" "x \<le> 1000000"
  shows "getConversionRate c c s = (Inr (Fin 1), s)
       \<and> convert (Fin x) c c s = (Inr (convertFromCents (convertToCents (Fin x))), s)
       \<and> (\<forall>k. 0 \<le> k \<and> k \<le> 100000000 \<and> lit (of_int k / 100) = Fin x
             \<longrightarrow> convert (Fin x) c c s = (Inr (Fin x), s))"
proof -
  have rate: "getConversionRate c c s = (Inr (Fin 1), s)"
    by (simp add: getConversionRate_def)
  from convertToCents_in_range[OF assms] obtain n
    where n: "convertToCents (Fin x) = Fin (of_int n)" "0 \<le> n" "n \<le> 100000000" by blast
  have "\<bar>n\<bar> < 2 ^ 53" using n(2,3) by simp
  then have "performConversion (Fin (of_int n)) c c s = (Inr (Fin (of_int n)), s)"
    by (rule performConversion_same_currency)
  then have conv: "convert (Fin x) c c s = (Inr (convertFromCents (convertToCents (Fin x))), s)"
    using validateInput_in_range[OF assms] by (simp add: convert_def n(1))
  have whole: "convert (Fin x) c c s = (Inr (Fin x), s)"
    if k: "0 \<le> k" "k \<le> 100000000" "lit (of_int k / 100) = Fin x" for k
  proof -
    have "convertToCents (Fin x) = Fin (of_int k)" using k by (rule whole_cents(1))
    moreover have "convertFromCents (Fin (of_int k)) = Fin x"
      using k(3) by (simp add: convertFromCents_def lit_def)
    ultimately show ?thesis using conv by simp
  qed
  show ?thesis using rate conv whole by blast
qed

text \<open>The amount 10.50 is a double: the literal \<^verbatim>\<open>10.5\<close> is read without rounding.\<close>

lemma lit_ten_and_a_half: "lit (of_int 1050 / 100) = Fin (21 / 2)"
proof -
  have "fl (of_int 21 * pow2 (- 1)) = Fin (of_int 21 * pow2 (- 1))"
    by (intro fl_exact[of _ 21 "- 1"]) simp_all
  then show ?thesis by (simp add: lit_def pow2_def)
qed

theorem convert_same_currency_witness:
  "(0::rat) \<le> 21 / 2 \<and> (21 / 2 :: rat) \<le> 1000000
   \<and> lit (of_int 1050 / 100) = Fin (21 / 2)
   \<and> getConversionRate ''USD'' ''USD'' \<lparr>exchangeRates = [], pricesCache = None, formatters = []\<rparr>
       = (Inr (Fin 1), \<lparr>exchangeRates = [], pricesCache = None, formatters = []\<rparr>)
   \<and> convert (Fin (21 / 2)) ''USD'' ''USD'' \<lparr>exchangeRates = [], pricesCache = None, formatters = []\<rparr>
       = (Inr (Fin (21 / 2)), \<lparr>exchangeRates = [], pricesCache = None, formatters = []\<rparr>)"
proof -
  have h: "(0::rat) \<le> 21 / 2" "(21 / 2 :: rat) \<le> 1000000" by simp_all
  note t = convert_same_currency[OF h, of "''USD''"
      "\<lparr>exchangeRates = [], pricesCache = None, formatters = []\<rparr>"]
  from t have "(0::int) \<le> 1050 \<and> (1050::int) \<le> 100000000 \<and> lit (of_int 1050 / 100) = Fin (21 / 2)
      \<longrightarrow> convert (Fin (21 / 2)) ''USD'' ''USD'' \<lparr>exchangeRates = [], pricesCache = None, formatters = []\<rparr>
       = (Inr (Fin (21 / 2)), \<lparr>exchangeRates = [], pricesCache = None, formatters = []\<rparr>)"
    by blast
  then have "convert (Fin (21 / 2)) ''USD'' ''USD'' \<lparr>exchangeRates = [], pricesCache = None, formatters = []\<rparr>
       = (Inr (Fin (21 / 2)), \<lparr>exchangeRates = [], pricesCache = None, formatters = []\<rparr>)"
    using lit_ten_and_a_half by simp
  then show ?thesis using t lit_ten_and_a_half h by simp
qed

text \<open>The amount \<open>1 / 256 = 0.00390625\<close> is a double, and it is less than half a cent.\<close>

lemma cents_of_small_amount: "convertToCents (Fin (1 / 256)) = Fin 0"
proof -
  have "fl (of_int 25 * pow2 (- 6)) = Fin (of_int 25 * pow2 (- 6))"
    by (intro fl_exact[of _ 25 "- 6"]) simp_all
  then have "fl (25 / 64) = Fin (25 / 64)" by (simp add: pow2_def)
  moreover have "\<lfloor>25 / 64 + 1 / 2 :: rat\<rfloor> = 0" by (rule floor_unique) simp_all
  ultimately show ?thesis by (simp add: convertToCents_def)
qed

text \<open>
  Claim C2 as stated fails: the valid amount 0.00390625 converted from USD to USD gives
  0, not the amount; the rounding of \<^verbatim>\<open>convertToCents\<close> is applied.
\<close>

theorem convert_same_currency_rounds:
  "validateInput (JNumber (Fin (1 / 256))) = Inr (JNumber (Fin (1 / 256)))
   \<and> convert (Fin (1 / 256)) ''USD'' ''USD'' \<lparr>exchangeRates = MOCK_RATES, pricesCache = None, formatters = []\<rparr>
       = (Inr (Fin 0), \<lparr>exchangeRates = MOCK_RATES, pricesCache = None, formatters = []\<rparr>)
   \<and> Fin 0 \<noteq> Fin (1 / 256)"
proof -
  have v: "validateInput (JNumber (Fin (1 / 256))) = Inr (JNumber (Fin (1 / 256)))"
    by (rule validateInput_in_range) simp_all
  have p: "performConversion (Fin (of_int 0)) ''USD'' ''USD''
        \<lparr>exchangeRates = MOCK_RATES, pricesCache = None, formatters = []\<rparr>
      = (Inr (Fin (of_int 0)), \<lparr>exchangeRates = MOCK_RATES, pricesCache = None, formatters = []\<rparr>)"
    by (rule performConversion_same_currency) simp
  have b: "convertFromCents (Fin 0) = Fin 0" by (simp add: convertFromCents_def fl_def)
  show ?thesis using v p b by (simp add: convert_def cents_of_small_amount)
qed

lemma lit_bounds:
  assumes "1 / 256 \<le> q" "q \<le> 151"
  shows "\<exists>r. lit q = Fin r \<and> 1 / 512 \<le> r \<and> r \<le> 152"
proof -
  note u = unit_roundoff_pos unit_roundoff_small
  have "1 / 1024 \<le> \<bar>q\<bar>" "\<bar>q\<bar> \<le> 2 ^ 60" using assms by simp_all
  from fl_error_mid[OF this] obtain r where r: "fl q = Fin r" "\<bar>r - q\<bar> \<le> \<bar>q\<bar> * unit_roundoff"
    by blast
  have q0: "0 \<le> q" using assms(1) by simp
  have "q * unit_roundoff \<le> q * (1 / 2)" using q0 u by (intro mult_left_mono) linarith+
  moreover have "q * unit_roundoff \<le> 151 * unit_roundoff"
    using assms(2) u(1) by (intro mult_right_mono) simp_all
  ultimately have "1 / 512 \<le> r" "r \<le> 152" using r(2) q0 assms u by linarith+
  then show ?thesis using r(1) by (simp add: lit_def)
qed

lemma MOCK_RATES_bounds:
  assumes "(key, v) \<in> set MOCK_RATES"
  shows "\<exists>r. v = Fin r \<and> 1 / 512 \<le> r \<and> r \<le> 152"
proof -
  from assms have "v \<in> lit ` {85 / 100, 73 / 100, 110, 118 / 100, 86 / 100, 12953 / 100,
      137 / 100, 116 / 100, 15075 / 100, 91 / 10000, 77 / 10000, 66 / 10000}"
    by (auto simp: MOCK_RATES_def)
  then obtain q where "v = lit q" "1 / 256 \<le> q" "q \<le> 151" by auto
  then show ?thesis using lit_bounds[of q] by simp
qed

text \<open>Back from cents: the double nearest to \<open>c / 100\<close>, less than 0.0000001 away from it.\<close>

lemma convertFromCents_of_int:
  assumes "0 \<le> c" "c \<le> 16000000000"
  shows "\<exists>y. convertFromCents (Fin (of_int c)) = Fin y \<and> lit (of_int c / 100) = Fin y
           \<and> \<bar>y - of_int c / 100\<bar> \<le> 1 / 10000000"
proof (cases "c = 0")
  case True
  then show ?thesis by (simp add: convertFromCents_def lit_def fl_def)
next
  case False
  note u = unit_roundoff_pos unit_roundoff_tiny
  define q :: rat where "q = of_int c / 100"
  have cr: "(1::rat) \<le> of_int c" "(of_int c :: rat) \<le> 16000000000"
    using False assms by simp_all
  then have q: "1 / 100 \<le> q" "q \<le> 160000000" by (simp_all add: q_def)
  then have "1 / 1024 \<le> \<bar>q\<bar>" "\<bar>q\<bar> \<le> 2 ^ 60" by simp_all
  from fl_error_mid[OF this] obtain y where y: "fl q = Fin y"
    and e: "\<bar>y - q\<bar> \<le> \<bar>q\<bar> * unit_roundoff" by blast
  have "\<bar>q\<bar> * unit_roundoff \<le> 160000000 * unit_roundoff"
    using q u(1) by (intro mult_right_mono) simp_all
  then have "\<bar>y - q\<bar> \<le> 1 / 10000000" using e u by linarith
  then show ?thesis using y by (simp add: convertFromCents_def lit_def q_def)
qed

text \<open>
  Claim C1, as amended. The table in use is the static table or any table returned by
  \<^verbatim>\<open>buildExchangeRates\<close>. For every amount that is a whole number of cents from 0 to
  1,000,000 (the double nearest to \<open>k / 100\<close>) and every pair of distinct currencies whose
  key is in the static table with rate \<open>r\<close>, the pipeline returns the double \<open>y\<close> nearest
  to \<open>c / 100\<close> for a whole number of cents \<open>c\<close> with \<open>c / 100\<close> within 0.01 of
  \<^verbatim>\<open>round(amount * r, 2)\<close>; so \<open>y\<close> is within 0.01 of it up to the representation error
  of \<open>c / 100\<close>, less than 0.0000001.
\<close>

theorem convert_whole_cents_within_one_cent:
  assumes k: "0 \<le> k" "k \<le> 100000000" and x: "lit (of_int k / 100) = Fin x"
    and ne: "fromCurrency \<noteq> toCurrency"
    and rate: "(fromCurrency @ ''_'' @ toCurrency, Fin r) \<in> set MOCK_RATES"
    and tbl: "exchangeRates s = MOCK_RATES \<or> exchangeRates s = buildExchangeRates prices"
  shows "\<exists>c y. convert (Fin x) fromCurrency toCurrency s = (Inr (Fin y), s)
           \<and> lit (of_int c / 100) = Fin y
           \<and> \<bar>of_int c / 100 - spec_round2 (x * r)\<bar> \<le> 1 / 100
           \<and> \<bar>y - spec_round2 (x * r)\<bar> \<le> 1 / 100 + 1 / 10000000"
proof -
  note u = unit_roundoff_pos unit_roundoff_small
  note wc = whole_cents[OF k x]
  have valid: "validateInput (JNumber (Fin x)) = Inr (JNumber (Fin x))"
    using wc(2,3) by (rule validateInput_in_range)
  have "map_of MOCK_RATES (fromCurrency @ ''_'' @ toCurrency) = Some (Fin r)"
    using rate distinct_MOCK_RATES by simp
  moreover have "map_of (buildExchangeRates prices) (fromCurrency @ ''_'' @ toCurrency)
      = Some (Fin r)"
    using rate by (rule static_entry_in_built_table)
  ultimately have "map_of (exchangeRates s) (fromCurrency @ ''_'' @ toCurrency) = Some (Fin r)"
    using tbl by auto
  then have get: "getConversionRate fromCurrency toCurrency s = (Inr (Fin r), s)"
    using ne by (simp add: getConversionRate_def)
  from MOCK_RATES_bounds[OF rate] have r: "1 / 512 \<le> r" "r \<le> 152" by simp_all
  define z where "z = of_int k * r"
  obtain y where y: "fl z = Fin y" and close: "\<bar>y - x * r * 100\<bar> < 1"
    and range: "0 \<le> y" "y \<le> 15200000001"
  proof (cases "k = 0")
    case True
    then have "x = 0" using wc(4) by simp
    then have "fl z = Fin 0" "\<bar>0 - x * r * 100\<bar> < 1" "(0::rat) \<le> 0" "(0::rat) \<le> 15200000001"
      using True by (simp_all add: z_def fl_def)
    then show ?thesis by (rule that)
  next
    case False
    then have kr: "(1::rat) \<le> of_int k" "(of_int k :: rat) \<le> 100000000" using k by simp_all
    have z1: "1 * (1 / 512) \<le> z" unfolding z_def using kr(1) r(1) by (intro mult_mono) simp_all
    have z2: "z \<le> 100000000 * 152" unfolding z_def using kr r by (intro mult_mono) simp_all
    have "1 / 1024 \<le> \<bar>z\<bar>" "\<bar>z\<bar> \<le> 2 ^ 60" using z1 z2 by simp_all
    from fl_error_mid[OF this] obtain y where y: "fl z = Fin y"
      and e: "\<bar>y - z\<bar> \<le> \<bar>z\<bar> * unit_roundoff" by blast
    have zu: "z * unit_roundoff \<le> (100000000 * 152) * unit_roundoff"
      using z2 u(1) by (intro mult_right_mono) simp_all
    have "x * r * 100 - z = (x * 100 - of_int k) * r" by (simp add: z_def algebra_simps)
    then have "\<bar>x * r * 100 - z\<bar> = \<bar>x * 100 - of_int k\<bar> * r"
      using r(1) by (simp only: abs_mult)
    also have "\<dots> \<le> (of_int k * unit_roundoff) * r"
      using wc(4) r(1) by (intro mult_right_mono) simp_all
    also have "\<dots> = z * unit_roundoff" by (simp add: z_def)
    finally have e': "\<bar>x * r * 100 - z\<bar> \<le> z * unit_roundoff" .
    have az: "\<bar>z\<bar> = z" using z1 by simp
    then have "\<bar>y - x * r * 100\<bar> < 1" using e e' zu u by linarith
    moreover have "0 \<le> y" "y \<le> 15200000001" using e az zu z1 z2 u by linarith+
    ultimately show ?thesis using y by (intro that)
  qed
  define c where "c = \<lfloor>y + 1 / 2\<rfloor>"
  have c0: "0 \<le> c" unfolding c_def using range(1) by simp
  have "y + 1 / 2 < of_int (15200000001 + 1)" using range(2) by simp
  then have "c < 15200000001 + 1" unfolding c_def by (simp only: floor_less_iff)
  then have c1: "c \<le> 16000000000" by simp
  have perform: "performConversion (Fin (of_int k)) fromCurrency toCurrency s
      = (Inr (Fin (of_int c)), s)"
    using get y by (simp add: performConversion_def z_def c_def)
  have conv: "convert (Fin x) fromCurrency toCurrency s
      = (Inr (convertFromCents (Fin (of_int c))), s)"
    using valid perform wc(1) by (simp add: convert_def)
  from convertFromCents_of_int[OF c0 c1] obtain w
    where w: "convertFromCents (Fin (of_int c)) = Fin w" "lit (of_int c / 100) = Fin w"
      "\<bar>w - of_int c / 100\<bar> \<le> 1 / 10000000" by blast
  have "\<bar>c - \<lfloor>x * r * 100 + 1 / 2\<rfloor>\<bar> \<le> 1"
    unfolding c_def using close by (rule round_close)
  then have "\<bar>(of_int (c - \<lfloor>x * r * 100 + 1 / 2\<rfloor>) :: rat)\<bar> \<le> 1"
    by (simp only: of_int_abs[symmetric] of_int_le_1_iff)
  then have cents: "\<bar>of_int c / 100 - spec_round2 (x * r)\<bar> \<le> 1 / 100"
    by (simp add: spec_round2_def diff_divide_distrib[symmetric] del: of_int_diff)
  then have "\<bar>w - spec_round2 (x * r)\<bar> \<le> 1 / 100 + 1 / 10000000"
    using w(3) by linarith
  with conv w cents show ?thesis by auto
qed

lemma USD_JPY_rate: "(''USD'' @ ''_'' @ ''JPY'', Fin 110) \<in> set MOCK_RATES"
  using lit_of_int[of 110] by (simp add: MOCK_RATES_def)

text \<open>10.50 USD to JPY, with the table built from a snapshot that prices one token.\<close>

theorem convert_whole_cents_within_one_cent_witness:
  "(0::int) \<le> 1050 \<and> (1050::int) \<le> 100000000
   \<and> lit (of_int 1050 / 100) = Fin (21 / 2)
   \<and> ''USD'' \<noteq> ''JPY''
   \<and> (''USD'' @ ''_'' @ ''JPY'', Fin 110) \<in> set MOCK_RATES
   \<and> (\<exists>c y. convert (Fin (21 / 2)) ''USD'' ''JPY''
              \<lparr>exchangeRates = buildExchangeRates (Some [(''ETH'', Some (Fin 2048))]),
               pricesCache = Some [(''ETH'', Some (Fin 2048))], formatters = []\<rparr>
            = (Inr (Fin y),
               \<lparr>exchangeRates = buildExchangeRates (Some [(''ETH'', Some (Fin 2048))]),
                pricesCache = Some [(''ETH'', Some (Fin 2048))], formatters = []\<rparr>)
          \<and> lit (of_int c / 100) = Fin y
          \<and> \<bar>of_int c / 100 - spec_round2 (21 / 2 * 110)\<bar> \<le> 1 / 100
          \<and> \<bar>y - spec_round2 (21 / 2 * 110)\<bar> \<le> 1 / 100 + 1 / 10000000)"
proof -
  have k: "(0::int) \<le> 1050" "(1050::int) \<le> 100000000" by simp_all
  have ne: "''USD'' \<noteq> ''JPY''" by simp
  have tbl: "exchangeRates \<lparr>exchangeRates = buildExchangeRates (Some [(''ETH'', Some (Fin 2048))]),
        pricesCache = Some [(''ETH'', Some (Fin 2048))], formatters = []\<rparr> = MOCK_RATES
      \<or> exchangeRates \<lparr>exchangeRates = buildExchangeRates (Some [(''ETH'', Some (Fin 2048))]),
        pricesCache = Some [(''ETH'', Some (Fin 2048))], formatters = []\<rparr>
        = buildExchangeRates (Some [(''ETH'', Some (Fin 2048))])" by simp
  from convert_whole_cents_within_one_cent[OF k lit_ten_and_a_half ne USD_JPY_rate tbl]
  show ?thesis using k lit_ten_and_a_half ne USD_JPY_rate by blast
qed

text \<open>
  Claim C1 as stated fails: the valid amount 0.00390625 converted from USD to JPY at the
  static rate 110 gives 0, while \<^verbatim>\<open>round(amount * rate, 2)\<close> is 0.43.
\<close>

theorem convert_small_amount_off_by_43_cents:
  "validateInput (JNumber (Fin (1 / 256))) = Inr (JNumber (Fin (1 / 256)))
   \<and> map_of MOCK_RATES ''USD_JPY'' = Some (Fin 110)
   \<and> convert (Fin (1 / 256)) ''USD'' ''JPY''
        \<lparr>exchangeRates = MOCK_RATES, pricesCache = None, formatters = []\<rparr>
      = (Inr (Fin 0), \<lparr>exchangeRates = MOCK_RATES, pricesCache = None, formatters = []\<rparr>)
   \<and> spec_round2 (1 / 256 * 110) = 43 / 100
   \<and> 1 / 100 < \<bar>0 - spec_round2 (1 / 256 * 110)\<bar>"
proof -
  have v: "validateInput (JNumber (Fin (1 / 256))) = Inr (JNumber (Fin (1 / 256)))"
    by (rule validateInput_in_range) simp_all
  have m: "map_of MOCK_RATES ''USD_JPY'' = Some (Fin 110)"
    using USD_JPY_rate distinct_MOCK_RATES by simp
  have "fl 0 = Fin 0" by (simp add: fl_def)
  then have p: "performConversion (Fin 0) ''USD'' ''JPY''
        \<lparr>exchangeRates = MOCK_RATES, pricesCache = None, formatters = []\<rparr>
      = (Inr (Fin 0), \<lparr>exchangeRates = MOCK_RATES, pricesCache = None, formatters = []\<rparr>)"
    using m floor_half by (simp add: performConversion_def getConversionRate_def)
  have b: "convertFromCents (Fin 0) = Fin 0" by (simp add: convertFromCents_def fl_def)
  have c: "convert (Fin (1 / 256)) ''USD'' ''JPY''
        \<lparr>exchangeRates = MOCK_RATES, pricesCache = None, formatters = []\<rparr>
      = (Inr (Fin 0), \<lparr>exchangeRates = MOCK_RATES, pricesCache = None, formatters = []\<rparr>)"
    using v p b by (simp add: convert_def cents_of_small_amount)
  have "\<lfloor>1 / 256 * 110 * 100 + 1 / 2 :: rat\<rfloor> = 43" by (rule floor_unique) simp_all
  then have r: "spec_round2 (1 / 256 * 110) = 43 / 100" by (simp add: spec_round2_def)
  show ?thesis using v m c r by simp
qed

section \<open>Derived rates\<close>

text \<open>
  A loop of \<^verbatim>\<open>set\<close> calls, seen from one key: when every step either leaves the key alone
  or gives it the value \<open>v\<close>, so does the loop; when moreover some step always gives it
  \<open>v\<close>, the loop ends with \<open>v\<close>.
\<close>

lemma foldl_keep:
  assumes "\<And>t r. t \<in> set ts \<Longrightarrow> map_of (f r t) k = map_of r k"
  shows "map_of (foldl f r ts) k = map_of r k"
  using assms by (induction ts arbitrary: r) simp_all

lemma foldl_keep_or_set:
  assumes "\<And>t r. t \<in> set ts \<Longrightarrow> map_of (f r t) k = Some v \<or> map_of (f r t) k = map_of r k"
  shows "map_of (foldl f r ts) k = Some v \<or> map_of (foldl f r ts) k = map_of r k"
  using assms
proof (induction ts arbitrary: r)
  case Nil
  then show ?case by simp
next
  case (Cons t ts)
  have step: "map_of (f r t) k = Some v \<or> map_of (f r t) k = map_of r k"
    by (rule Cons.prems) simp
  have rest: "map_of (foldl f (f r t) ts) k = Some v
      \<or> map_of (foldl f (f r t) ts) k = map_of (f r t) k"
    by (rule Cons.IH) (simp add: Cons.prems)
  from step rest show ?case by auto
qed

lemma foldl_set:
  assumes "\<And>t r. t \<in> set ts \<Longrightarrow> map_of (f r t) k = Some v \<or> map_of (f r t) k = map_of r k"
    and "a \<in> set ts" and "\<And>r. map_of (f r a) k = Some v"
  shows "map_of (foldl f r ts) k = Some v"
  using assms
proof (induction ts arbitrary: r)
  case Nil
  then show ?case by simp
next
  case (Cons t ts)
  show ?case
  proof (cases "a \<in> set ts")
    case True
    have "map_of (foldl f (f r t) ts) k = Some v"
      using True Cons.prems(3) by (intro Cons.IH) (simp_all add: Cons.prems(1))
    then show ?thesis by simp
  next
    case False
    then have "t = a" using Cons.prems(2) by simp
    then have "map_of (f r t) k = Some v" by (simp add: Cons.prems(3))
    moreover have "map_of (foldl f (f r t) ts) k = Some v
        \<or> map_of (foldl f (f r t) ts) k = map_of (f r t) k"
      by (rule foldl_keep_or_set) (simp add: Cons.prems(1))
    ultimately show ?thesis by auto
  qed
qed

text \<open>A key determines its two symbols when the first has no underscore.\<close>

lemma split_key:
  assumes "CHR ''_'' \<notin> set a" "CHR ''_'' \<notin> set c" "a @ ''_'' @ b = c @ ''_'' @ d"
  shows "a = c \<and> b = d"
proof -
  have tw: "takeWhile (\<lambda>ch. ch \<noteq> CHR ''_'') (xs @ ''_'' @ ys) = xs" if "CHR ''_'' \<notin> set xs"
    for xs ys using that by (induction xs) auto
  have "takeWhile (\<lambda>ch. ch \<noteq> CHR ''_'') (a @ ''_'' @ b) = a" using assms(1) by (rule tw)
  moreover have "takeWhile (\<lambda>ch. ch \<noteq> CHR ''_'') (c @ ''_'' @ d) = c" using assms(2) by (rule tw)
  ultimately have "a = c" using assms(3) by simp
  then show ?thesis using assms(3) by simp
qed

lemma has_price_token:
  assumes "has_price ps t p"
  shows "t \<in> set (filter (\<lambda>t. map_of ps t \<noteq> Some None) (map fst ps))"
proof -
  from assms have "map_of ps t = Some (Some p)" by (simp add: has_price_def)
  then show ?thesis by (auto dest: map_of_SomeD intro: rev_image_eqI)
qed

lemma has_price_not_zero: "has_price ps t p \<Longrightarrow> \<not> strict_eq p (Fin 0)"
  by (auto simp: has_price_def strict_eq_def)

lemma cross_rates_step_cases:
  assumes nu: "\<And>t. t \<in> set (map fst ps) \<Longrightarrow> CHR ''_'' \<notin> set t"
    and A: "has_price ps A pa" and B: "has_price ps B pb"
    and f: "f \<in> set (map fst ps)"
  shows "map_of (cross_rates_step ps f r t) (A @ ''_'' @ B) = Some (js_div pa pb)
       \<or> map_of (cross_rates_step ps f r t) (A @ ''_'' @ B) = map_of r (A @ ''_'' @ B)"
proof (cases "f @ ''_'' @ t = A @ ''_'' @ B")
  case True
  have "A \<in> set (map fst ps)" using has_price_token[OF A] by simp
  then have "f = A \<and> t = B" using True nu f by (intro split_key) simp_all
  then show ?thesis using A B
    by (auto simp: cross_rates_step_def has_price_def map_of_map_set)
next
  case False
  then show ?thesis
    by (auto simp: cross_rates_step_def map_of_map_set split: option.split)
qed

lemma cross_rates_step_writes:
  assumes "has_price ps A pa" "has_price ps B pb" "A \<noteq> B"
  shows "map_of (cross_rates_step ps A r B) (A @ ''_'' @ B) = Some (js_div pa pb)"
  using assms has_price_not_zero[OF assms(1)]
  by (simp add: cross_rates_step_def has_price_def map_of_map_set)

lemma cross_rates_entry:
  assumes nu: "\<And>t. t \<in> set (map fst ps) \<Longrightarrow> CHR ''_'' \<notin> set t"
    and A: "has_price ps A pa" and B: "has_price ps B pb" and ne: "A \<noteq> B"
    and tokens: "tokens = filter (\<lambda>t. map_of ps t \<noteq> Some None) (map fst ps)"
  shows "map_of (foldl (\<lambda>rates fromToken. foldl (cross_rates_step ps fromToken) rates tokens)
                  r tokens) (A @ ''_'' @ B) = Some (js_div pa pb)"
proof (rule foldl_set[where a = A])
  show "A \<in> set tokens" unfolding tokens using A by (rule has_price_token)
  have Bt: "B \<in> set tokens" unfolding tokens using B by (rule has_price_token)
  show "map_of (foldl (cross_rates_step ps f) r' tokens) (A @ ''_'' @ B) = Some (js_div pa pb)
      \<or> map_of (foldl (cross_rates_step ps f) r' tokens) (A @ ''_'' @ B) = map_of r' (A @ ''_'' @ B)"
    if "f \<in> set tokens" for f r'
  proof (rule foldl_keep_or_set)
    have "f \<in> set (map fst ps)" using that by (simp add: tokens)
    then show "map_of (cross_rates_step ps f r'' t) (A @ ''_'' @ B) = Some (js_div pa pb)
        \<or> map_of (cross_rates_step ps f r'' t) (A @ ''_'' @ B) = map_of r'' (A @ ''_'' @ B)"
      for t r'' using nu A B by (intro cross_rates_step_cases) simp_all
  qed
  show "map_of (foldl (cross_rates_step ps A) r' tokens) (A @ ''_'' @ B) = Some (js_div pa pb)"
    for r'
  proof (rule foldl_set[where a = B])
    have "A \<in> set (map fst ps)" using has_price_token[OF A] by simp
    then show "map_of (cross_rates_step ps A r'' t) (A @ ''_'' @ B) = Some (js_div pa pb)
        \<or> map_of (cross_rates_step ps A r'' t) (A @ ''_'' @ B) = map_of r'' (A @ ''_'' @ B)"
      for t r'' using nu A B by (intro cross_rates_step_cases) simp_all
    show "B \<in> set tokens" by (rule Bt)
    show "map_of (cross_rates_step ps A r'' B) (A @ ''_'' @ B) = Some (js_div pa pb)" for r''
      using A B ne by (rule cross_rates_step_writes)
  qed
qed

lemma static_merge_other_key:
  assumes "map_of MOCK_RATES k = None"
  shows "map_of (foldl (\<lambda>rates (key, value). map_set rates key value) r MOCK_RATES) k = map_of r k"
proof -
  have "map_of (rev MOCK_RATES) k = None"
    using assms by (simp add: map_of_eq_None_iff)
  then show ?thesis by (simp add: map_of_foldl_map_set)
qed

lemma buildExchangeRates_lookup:
  assumes "ps \<noteq> []" and "map_of MOCK_RATES k = None"
    and "tokens = filter (\<lambda>t. map_of ps t \<noteq> Some None) (map fst ps)"
    and "map_of (foldl (\<lambda>rates fromToken. foldl (cross_rates_step ps fromToken) rates tokens)
                   (foldl (usd_rates_step ps) [] tokens) tokens) k = Some v"
  shows "map_of (buildExchangeRates (Some ps)) k = Some v"
proof -
  define rates2 where "rates2 =
    foldl (\<lambda>rates fromToken. foldl (cross_rates_step ps fromToken) rates tokens)
      (foldl (usd_rates_step ps) [] tokens) tokens"
  define rates3 where "rates3 = foldl (\<lambda>rates (key, value). map_set rates key value) rates2 MOCK_RATES"
  have 3: "map_of rates3 k = Some v"
    unfolding rates3_def using assms(4) static_merge_other_key[OF assms(2)]
    by (simp add: rates2_def)
  then have "rates3 \<noteq> []" by auto
  then have "buildExchangeRates (Some ps) = rates3"
    using assms(1) by (simp add: buildExchangeRates_def Let_def rates3_def rates2_def assms(3))
  then show ?thesis using 3 by simp
qed

lemma USD_no_underscore: "CHR ''_'' \<notin> set ''USD''"
  by simp

lemma cross_rates_step_keeps_USD_pairs:
  assumes nu: "\<And>t. t \<in> set (map fst ps) \<Longrightarrow> CHR ''_'' \<notin> set t"
    and noUSD: "\<And>p. \<not> has_price ps ''USD'' p"
    and A: "has_price ps A pa" and f: "f \<in> set (map fst ps)"
  shows "map_of (cross_rates_step ps f r t) (''USD_'' @ A) = map_of r (''USD_'' @ A)"
    and "map_of (cross_rates_step ps f r t) (A @ ''_USD'') = map_of r (A @ ''_USD'')"
proof -
  have An: "CHR ''_'' \<notin> set A" using has_price_token[OF A] nu by simp
  have fn: "CHR ''_'' \<notin> set f" using f nu by simp
  show "map_of (cross_rates_step ps f r t) (''USD_'' @ A) = map_of r (''USD_'' @ A)"
  proof (cases "f @ ''_'' @ t = ''USD'' @ ''_'' @ A")
    case True
    then have "f = ''USD''" using split_key[OF fn USD_no_underscore True] by simp
    then have "cross_rates_step ps f r t = r"
      using noUSD by (auto simp: cross_rates_step_def has_price_def split: option.split)
    then show ?thesis by simp
  next
    case False
    then show ?thesis
      by (auto simp: cross_rates_step_def map_of_map_set split: option.split)
  qed
  show "map_of (cross_rates_step ps f r t) (A @ ''_USD'') = map_of r (A @ ''_USD'')"
  proof (cases "f @ ''_'' @ t = A @ ''_'' @ ''USD''")
    case True
    then have "t = ''USD''" using split_key[OF fn An True] by simp
    then have "cross_rates_step ps f r t = r"
      using noUSD by (auto simp: cross_rates_step_def has_price_def split: option.split)
    then show ?thesis by simp
  next
    case False
    then show ?thesis
      by (auto simp: cross_rates_step_def map_of_map_set split: option.split)
  qed
qed

lemma usd_rates_step_cases:
  assumes nu: "\<And>t. t \<in> set (map fst ps) \<Longrightarrow> CHR ''_'' \<notin> set t"
    and noUSD: "\<And>p. \<not> has_price ps ''USD'' p"
    and A: "has_price ps A pa"
  shows "map_of (usd_rates_step ps r t) (''USD_'' @ A) = Some (js_div (Fin 1) pa)
       \<or> map_of (usd_rates_step ps r t) (''USD_'' @ A) = map_of r (''USD_'' @ A)"
    and "map_of (usd_rates_step ps r t) (A @ ''_USD'') = Some pa
       \<or> map_of (usd_rates_step ps r t) (A @ ''_USD'') = map_of r (A @ ''_USD'')"
    and "map_of (usd_rates_step ps r A) (''USD_'' @ A) = Some (js_div (Fin 1) pa)"
    and "map_of (usd_rates_step ps r A) (A @ ''_USD'') = Some pa"
proof -
  have An: "CHR ''_'' \<notin> set A" using has_price_token[OF A] nu by simp
  have "A \<noteq> ''USD''" using A noUSD by auto
  then have k1: "A @ ''_USD'' \<noteq> ''USD_'' @ A"
    using split_key[OF An USD_no_underscore, of "''USD''" A] by auto
  have pa: "map_of ps A = Some (Some pa)" "truthy pa" "\<not> strict_eq pa (Fin 0)"
    using A has_price_not_zero[OF A] by (simp_all add: has_price_def)
  show "map_of (usd_rates_step ps r A) (''USD_'' @ A) = Some (js_div (Fin 1) pa)"
    using pa k1 by (simp add: usd_rates_step_def map_of_map_set)
  show "map_of (usd_rates_step ps r A) (A @ ''_USD'') = Some pa"
    using pa by (simp add: usd_rates_step_def map_of_map_set)
  have other: "usd_rates_step ps r t = r
      \<or> (\<exists>p. has_price ps t p
            \<and> map_of (usd_rates_step ps r t)
                = ((map_of r)(''USD_'' @ t \<mapsto> js_div (Fin 1) p))(t @ ''_USD'' \<mapsto> p))"
    by (auto simp: usd_rates_step_def has_price_def map_of_map_set split: option.split)
  show "map_of (usd_rates_step ps r t) (''USD_'' @ A) = Some (js_div (Fin 1) pa)
       \<or> map_of (usd_rates_step ps r t) (''USD_'' @ A) = map_of r (''USD_'' @ A)"
  proof (cases "t = A")
    case True
    then show ?thesis using \<open>map_of (usd_rates_step ps r A) (''USD_'' @ A) = Some (js_div (Fin 1) pa)\<close>
      by simp
  next
    case False
    from other show ?thesis
    proof
      assume "usd_rates_step ps r t = r"
      then show ?thesis by simp
    next
      assume "\<exists>p. has_price ps t p
            \<and> map_of (usd_rates_step ps r t)
                = ((map_of r)(''USD_'' @ t \<mapsto> js_div (Fin 1) p))(t @ ''_USD'' \<mapsto> p)"
      then obtain p where p: "has_price ps t p"
        and m: "map_of (usd_rates_step ps r t)
                = ((map_of r)(''USD_'' @ t \<mapsto> js_div (Fin 1) p))(t @ ''_USD'' \<mapsto> p)" by blast
      have tn: "CHR ''_'' \<notin> set t" using has_price_token[OF p] nu by simp
      have "t \<noteq> ''USD''" using p noUSD by auto
      then have "t @ ''_USD'' \<noteq> ''USD_'' @ A"
        using split_key[OF tn USD_no_underscore, of "''USD''" A] by auto
      then show ?thesis using m False by simp
    qed
  qed
  show "map_of (usd_rates_step ps r t) (A @ ''_USD'') = Some pa
       \<or> map_of (usd_rates_step ps r t) (A @ ''_USD'') = map_of r (A @ ''_USD'')"
  proof (cases "t = A")
    case True
    then show ?thesis using \<open>map_of (usd_rates_step ps r A) (A @ ''_USD'') = Some pa\<close> by simp
  next
    case False
    from other show ?thesis
    proof
      assume "usd_rates_step ps r t = r"
      then show ?thesis by simp
    next
      assume "\<exists>p. has_price ps t p
            \<and> map_of (usd_rates_step ps r t)
                = ((map_of r)(''USD_'' @ t \<mapsto> js_div (Fin 1) p))(t @ ''_USD'' \<mapsto> p)"
      then obtain p where p: "has_price ps t p"
        and m: "map_of (usd_rates_step ps r t)
                = ((map_of r)(''USD_'' @ t \<mapsto> js_div (Fin 1) p))(t @ ''_USD'' \<mapsto> p)" by blast
      have "''USD_'' @ t \<noteq> A @ ''_USD''"
        using split_key[OF An USD_no_underscore, of "''USD''" t] \<open>A \<noteq> ''USD''\<close> by auto
      then show ?thesis using m False by simp
    qed
  qed
qed

lemma usd_pair_entries:
  assumes nu: "\<And>t. t \<in> set (map fst ps) \<Longrightarrow> CHR ''_'' \<notin> set t"
    and noUSD: "\<And>p. \<not> has_price ps ''USD'' p"
    and A: "has_price ps A pa"
    and tokens: "tokens = filter (\<lambda>t. map_of ps t \<noteq> Some None) (map fst ps)"
  shows "map_of (foldl (\<lambda>rates fromToken. foldl (cross_rates_step ps fromToken) rates tokens)
                  (foldl (usd_rates_step ps) [] tokens) tokens) (''USD_'' @ A)
           = Some (js_div (Fin 1) pa)"
    and "map_of (foldl (\<lambda>rates fromToken. foldl (cross_rates_step ps fromToken) rates tokens)
                  (foldl (usd_rates_step ps) [] tokens) tokens) (A @ ''_USD'')
           = Some pa"
proof -
  have At: "A \<in> set tokens" unfolding tokens using A by (rule has_price_token)
  have sub: "f \<in> set (map fst ps)" if "f \<in> set tokens" for f using that by (simp add: tokens)
  have cross: "map_of (foldl (\<lambda>rates fromToken. foldl (cross_rates_step ps fromToken) rates tokens)
                  r tokens) k = map_of r k"
    if "k = ''USD_'' @ A \<or> k = A @ ''_USD''" for k r
  proof (rule foldl_keep)
    fix f r'
    assume "f \<in> set tokens"
    then have f: "f \<in> set (map fst ps)" by (rule sub)
    show "map_of (foldl (cross_rates_step ps f) r' tokens) k = map_of r' k"
      using that cross_rates_step_keeps_USD_pairs[OF nu noUSD A f]
      by (intro foldl_keep) auto
  qed
  have "map_of (foldl (usd_rates_step ps) [] tokens) (''USD_'' @ A) = Some (js_div (Fin 1) pa)"
    using usd_rates_step_cases(1,3)[OF nu noUSD A] At by (intro foldl_set[where a = A]) auto
  then show "map_of (foldl (\<lambda>rates fromToken. foldl (cross_rates_step ps fromToken) rates tokens)
                  (foldl (usd_rates_step ps) [] tokens) tokens) (''USD_'' @ A)
           = Some (js_div (Fin 1) pa)"
    by (simp add: cross)
  have "map_of (foldl (usd_rates_step ps) [] tokens) (A @ ''_USD'') = Some pa"
    using usd_rates_step_cases(2,4)[OF nu noUSD A] At by (intro foldl_set[where a = A]) auto
  then show "map_of (foldl (\<lambda>rates fromToken. foldl (cross_rates_step ps fromToken) rates tokens)
                  (foldl (usd_rates_step ps) [] tokens) tokens) (A @ ''_USD'')
           = Some pa"
    by (simp add: cross)
qed

text \<open>
  Claim C7, as amended. For every snapshot whose token symbols have no underscore and
  every ordered pair of distinct tokens A, B with non-null, non-zero prices, the table
  maps A_B to \<^verbatim>\<open>price[A] / price[B]\<close> unless A_B is a static key; when no token named USD
  has such a price, it maps USD_A to \<^verbatim>\<open>1 / price[A]\<close> and A_USD to \<^verbatim>\<open>price[A]\<close>, each
  unless that key is a static key. The table built from \<^verbatim>\<open>{A: 2, B: 4}\<close> has A_B = 0.5
  and B_A = 2.
\<close>

theorem derived_rates:
  assumes nu: "\<forall>t \<in> set (map fst ps). CHR ''_'' \<notin> set t"
    and A: "has_price ps A pa" and B: "has_price ps B pb" and ne: "A \<noteq> B"
  shows "(map_of MOCK_RATES (A @ ''_'' @ B) = None \<longrightarrow>
            map_of (buildExchangeRates (Some ps)) (A @ ''_'' @ B) = Some (js_div pa pb))
       \<and> ((\<forall>p. \<not> has_price ps ''USD'' p) \<and> map_of MOCK_RATES (''USD_'' @ A) = None \<longrightarrow>
            map_of (buildExchangeRates (Some ps)) (''USD_'' @ A) = Some (js_div (Fin 1) pa))
       \<and> ((\<forall>p. \<not> has_price ps ''USD'' p) \<and> map_of MOCK_RATES (A @ ''_USD'') = None \<longrightarrow>
            map_of (buildExchangeRates (Some ps)) (A @ ''_USD'') = Some pa)
       \<and> map_of (buildExchangeRates (Some [(''A'', Some (Fin 2)), (''B'', Some (Fin 4))])) ''A_B''
           = Some (Fin (1 / 2))
       \<and> map_of (buildExchangeRates (Some [(''A'', Some (Fin 2)), (''B'', Some (Fin 4))])) ''B_A''
           = Some (Fin 2)"
proof -
  have general: "map_of (buildExchangeRates (Some qs)) (X @ ''_'' @ Y) = Some (js_div px py)"
    if "\<forall>t \<in> set (map fst qs). CHR ''_'' \<notin> set t" "has_price qs X px" "has_price qs Y py"
      "X \<noteq> Y" "map_of MOCK_RATES (X @ ''_'' @ Y) = None" for qs X Y px py
  proof (rule buildExchangeRates_lookup[OF _ that(5) refl])
    show "qs \<noteq> []" using that(2) by (auto simp: has_price_def)
    show "map_of (foldl (\<lambda>rates fromToken. foldl (cross_rates_step qs fromToken) rates
              (filter (\<lambda>t. map_of qs t \<noteq> Some None) (map fst qs)))
            (foldl (usd_rates_step qs) [] (filter (\<lambda>t. map_of qs t \<noteq> Some None) (map fst qs)))
            (filter (\<lambda>t. map_of qs t \<noteq> Some None) (map fst qs))) (X @ ''_'' @ Y)
        = Some (js_div px py)"
    proof (rule cross_rates_entry[OF _ that(2,3,4) refl])
      show "CHR ''_'' \<notin> set t" if "t \<in> set (map fst qs)" for t
        using that \<open>\<forall>t \<in> set (map fst qs). CHR ''_'' \<notin> set t\<close> by blast
    qed
  qed
  have ne0: "ps \<noteq> []" using A by (auto simp: has_price_def)
  have nu': "\<And>t. t \<in> set (map fst ps) \<Longrightarrow> CHR ''_'' \<notin> set t" using nu by blast
  have usd1: "map_of (buildExchangeRates (Some ps)) (''USD_'' @ A) = Some (js_div (Fin 1) pa)"
    if "\<forall>p. \<not> has_price ps ''USD'' p" "map_of MOCK_RATES (''USD_'' @ A) = None"
    using usd_pair_entries(1)[OF nu' _ A refl] that(1)
    by (intro buildExchangeRates_lookup[OF ne0 that(2) refl]) blast
  have usd2: "map_of (buildExchangeRates (Some ps)) (A @ ''_USD'') = Some pa"
    if "\<forall>p. \<not> has_price ps ''USD'' p" "map_of MOCK_RATES (A @ ''_USD'') = None"
    using usd_pair_entries(2)[OF nu' _ A refl] that(1)
    by (intro buildExchangeRates_lookup[OF ne0 that(2) refl]) blast
  have half: "fl (1 / 2) = Fin (1 / 2)"
    using fl_exact[of "1 / 2" 1 "- 1"] by (simp add: pow2_def)
  have two: "fl 2 = Fin 2" using fl_of_int[of 2] by simp
  have ab: "map_of (buildExchangeRates (Some [(''A'', Some (Fin 2)), (''B'', Some (Fin 4))]))
      (''A'' @ ''_'' @ ''B'') = Some (js_div (Fin 2) (Fin 4))"
    by (rule general) (simp_all add: has_price_def MOCK_RATES_def)
  have ba: "map_of (buildExchangeRates (Some [(''A'', Some (Fin 2)), (''B'', Some (Fin 4))]))
      (''B'' @ ''_'' @ ''A'') = Some (js_div (Fin 4) (Fin 2))"
    by (rule general) (simp_all add: has_price_def MOCK_RATES_def)
  show ?thesis
    using general[OF nu A B ne] usd1 usd2 ab ba by (simp add: half two)
qed

theorem derived_rates_witness:
  "CHR ''_'' \<notin> set ''ETH'' \<and> CHR ''_'' \<notin> set ''ATOM'' \<and> CHR ''_'' \<notin> set ''LUNA''
   \<and> has_price [(''ETH'', Some (Fin 2048)), (''ATOM'', Some (Fin 8)), (''LUNA'', None)] ''ETH'' (Fin 2048)
   \<and> has_price [(''ETH'', Some (Fin 2048)), (''ATOM'', Some (Fin 8)), (''LUNA'', None)] ''ATOM'' (Fin 8)
   \<and> map_of (buildExchangeRates (Some [(''ETH'', Some (Fin 2048)), (''ATOM'', Some (Fin 8)), (''LUNA'', None)]))
        ''ETH_ATOM'' = Some (Fin 256)
   \<and> map_of (buildExchangeRates (Some [(''ETH'', Some (Fin 2048)), (''ATOM'', Some (Fin 8)), (''LUNA'', None)]))
        ''USD_ETH'' = Some (Fin (1 / 2048))
   \<and> map_of (buildExchangeRates (Some [(''ETH'', Some (Fin 2048)), (''ATOM'', Some (Fin 8)), (''LUNA'', None)]))
        ''ETH_USD'' = Some (Fin 2048)"
proof -
  define ps :: snapshot where "ps = [(''ETH'', Some (Fin 2048)), (''ATOM'', Some (Fin 8)), (''LUNA'', None)]"
  have nu: "\<forall>t \<in> set (map fst ps). CHR ''_'' \<notin> set t" by (simp add: ps_def)
  have A: "has_price ps ''ETH'' (Fin 2048)" by (simp add: ps_def has_price_def)
  have B: "has_price ps ''ATOM'' (Fin 8)" by (simp add: ps_def has_price_def)
  have ne: "''ETH'' \<noteq> ''ATOM''" by simp
  have noUSD: "\<forall>p. \<not> has_price ps ''USD'' p" by (simp add: ps_def has_price_def)
  have static: "map_of MOCK_RATES (''ETH'' @ ''_'' @ ''ATOM'') = None"
    "map_of MOCK_RATES (''USD_'' @ ''ETH'') = None" "map_of MOCK_RATES (''ETH'' @ ''_USD'') = None"
    by (simp_all add: MOCK_RATES_def)
  have q: "fl 256 = Fin 256" using fl_of_int[of 256] by simp
  have i: "fl (1 / 2048) = Fin (1 / 2048)"
    using fl_exact[of "1 / 2048" 1 "- 11"] by (simp add: pow2_def)
  from derived_rates[OF nu A B ne] noUSD static
  have "map_of (buildExchangeRates (Some ps)) (''ETH'' @ ''_'' @ ''ATOM'') = Some (js_div (Fin 2048) (Fin 8))"
    and "map_of (buildExchangeRates (Some ps)) (''USD_'' @ ''ETH'') = Some (js_div (Fin 1) (Fin 2048))"
    and "map_of (buildExchangeRates (Some ps)) (''ETH'' @ ''_USD'') = Some (Fin 2048)"
    by blast+
  then show ?thesis using nu A B unfolding ps_def by (simp add: q i)
qed

text \<open>
  Claim C7 as stated fails for a token whose USD pair is a static key: with JPY priced at
  2, the table maps USD_JPY to the static 110, not to \<^verbatim>\<open>1 / price[JPY]\<close> = 0.5.
\<close>

theorem static_rate_replaces_usd_pair:
  "has_price [(''JPY'', Some (Fin 2)), (''B'', Some (Fin 4))] ''JPY'' (Fin 2)
   \<and> has_price [(''JPY'', Some (Fin 2)), (''B'', Some (Fin 4))] ''B'' (Fin 4)
   \<and> map_of (buildExchangeRates (Some [(''JPY'', Some (Fin 2)), (''B'', Some (Fin 4))])) ''USD_JPY''
       = Some (Fin 110)
   \<and> js_div (Fin 1) (Fin 2) = Fin (1 / 2)"
proof -
  have "map_of (rev MOCK_RATES) ''USD_JPY'' = Some (Fin 110)"
    using USD_JPY_rate distinct_MOCK_RATES by (intro map_of_rev_distinct) simp_all
  then have "map_of (foldl (\<lambda>rates (key, value). map_set rates key value) r MOCK_RATES) ''USD_JPY''
      = Some (Fin 110)" for r by (simp add: map_of_foldl_map_set)
  moreover have "map_of MOCK_RATES ''USD_JPY'' = Some (Fin 110)"
    using USD_JPY_rate distinct_MOCK_RATES by simp
  ultimately have m: "map_of (buildExchangeRates (Some [(''JPY'', Some (Fin 2)), (''B'', Some (Fin 4))]))
      ''USD_JPY'' = Some (Fin 110)"
    by (simp add: buildExchangeRates_def Let_def)
  have "fl (1 / 2) = Fin (1 / 2)"
    using fl_exact[of "1 / 2" 1 "- 1"] by (simp add: pow2_def)
  then show ?thesis using m by (simp add: has_price_def)
qed

end
